theory Spec2Isabelle
  imports Complex_Main "HOL-Library.Word"
begin

section \<open>JavaScript strings\<close>

text \<open>
  A JavaScript string is a sequence of UTF-16 code units; \<open>length\<close>, indexing,
  \<open>substring\<close>, \<open>indexOf\<close> and \<open>trim\<close> all work on code units.
\<close>

type_synonym jschar = "16 word"
type_synonym jsstring = "jschar list"

text \<open>An ASCII literal as a JavaScript string.\<close>

definition js :: "string \<Rightarrow> jsstring" where
  "js s = map (\<lambda>c. of_nat (of_char c)) s"

abbreviation lparen :: jschar where "lparen \<equiv> 0x28"
abbreviation rparen :: jschar where "rparen \<equiv> 0x29"
abbreviation comma :: jschar where "comma \<equiv> 0x2C"
abbreviation colon :: jschar where "colon \<equiv> 0x3A"
abbreviation semicolon :: jschar where "semicolon \<equiv> 0x3B"
abbreviation newline :: jschar where "newline \<equiv> 0x0A"

text \<open>
  The code units that \<open>String.prototype.trim\<close> strips and that \<open>parseFloat\<close>
  skips at the front: ECMAScript's WhiteSpace and LineTerminator.
\<close>

definition isWhiteSpace :: "jschar \<Rightarrow> bool" where
  "isWhiteSpace c \<longleftrightarrow>
     c \<in> {0x09, 0x0A, 0x0B, 0x0C, 0x0D, 0x20, 0xA0, 0x1680,
          0x2000, 0x2001, 0x2002, 0x2003, 0x2004, 0x2005, 0x2006, 0x2007,
          0x2008, 0x2009, 0x200A, 0x2028, 0x2029, 0x202F, 0x205F, 0x3000, 0xFEFF}"

definition trim :: "jsstring \<Rightarrow> jsstring" where
  "trim s = rev (dropWhile isWhiteSpace (rev (dropWhile isWhiteSpace s)))"

text \<open>\<open>s.substring(a, b)\<close> for non-negative indices: both are clamped to the length
  and swapped when \<open>a > b\<close>.\<close>

definition substring :: "jsstring \<Rightarrow> nat \<Rightarrow> nat \<Rightarrow> jsstring" where
  "substring s a b =
     (let a' = min a (length s); b' = min b (length s);
          lo = min a' b'; hi = max a' b'
      in take (hi - lo) (drop lo s))"

text \<open>\<open>s.substring(a)\<close>: from index \<open>a\<close> to the end.\<close>

definition substringFrom :: "jsstring \<Rightarrow> nat \<Rightarrow> jsstring" where
  "substringFrom s a = drop a s"

text \<open>\<open>s.indexOf(c)\<close> for a single code unit; \<open>None\<close> stands for the result \<open>-1\<close>.\<close>

fun indexOf :: "jsstring \<Rightarrow> jschar \<Rightarrow> nat option" where
  "indexOf [] c = None"
| "indexOf (x # xs) c =
     (if x = c then Some 0 else map_option Suc (indexOf xs c))"

definition startsWith :: "jsstring \<Rightarrow> jschar \<Rightarrow> bool" where
  "startsWith s c = (case s of [] \<Rightarrow> False | x # _ \<Rightarrow> x = c)"

section \<open>JavaScript numbers\<close>

text \<open>
  A Number is an IEEE 754 binary64 value. \<open>Fin m e\<close> is the finite value \<open>m * 2 ^ e\<close> in
  the format's own normal form: \<open>\<bar>m\<bar> < 2 ^ 53\<close>, \<open>- 1074 \<le> e \<le> 971\<close>, and
  \<open>2 ^ 52 \<le> \<bar>m\<bar>\<close> unless \<open>e = - 1074\<close> (zero and the subnormals). The two zeros are one
  value here: the program reads a number only through \<open>x || 0\<close>, \<open>x ? a : b\<close> and
  \<open>toFixed\<close>, and none of them tells \<open>-0\<close> from \<open>+0\<close>.
\<close>

datatype jsnum = NaN | PosInfinity | NegInfinity | Fin int int

definition zero :: jsnum where
  "zero = Fin 0 (- 1074)"

text \<open>ToBoolean on a Number: false for \<open>NaN\<close> and zero.\<close>

fun truthy :: "jsnum \<Rightarrow> bool" where
  "truthy NaN = False"
| "truthy (Fin m e) = (m \<noteq> 0)"
| "truthy _ = True"

text \<open>\<open>x || 0\<close> on a Number.\<close>

definition or0 :: "jsnum \<Rightarrow> jsnum" where
  "or0 x = (if truthy x then x else zero)"

text \<open>The number of binary digits of a positive integer.\<close>

function bits :: "int \<Rightarrow> int" where
  "bits n = (if n \<le> 0 then 0 else 1 + bits (n div 2))"
  by pat_completeness auto
termination
  by (relation "measure nat") auto

declare bits.simps [simp del]

text \<open>\<open>num \<ge> den * 2 ^ k\<close> for an integer \<open>k\<close> of either sign.\<close>

definition ge_pow2 :: "int \<Rightarrow> int \<Rightarrow> int \<Rightarrow> bool" where
  "ge_pow2 num den k =
     (if 0 \<le> k then den * 2 ^ nat k \<le> num else den \<le> num * 2 ^ nat (- k))"

text \<open>
  The Number value of the non-negative rational \<open>num / den\<close> (\<open>den > 0\<close>), negated
  when \<open>neg\<close>: round to nearest, ties to even, on 53 significant bits with the
  exponent bounded below by \<open>- 1074\<close>; a result of \<open>2 ^ 1024\<close> or more is an infinity.
\<close>

definition toNumber :: "bool \<Rightarrow> int \<Rightarrow> int \<Rightarrow> jsnum" where
  "toNumber neg num den =
     (if num = 0 then zero
      else
        let E0 = bits num - bits den;
            E = (if ge_pow2 num den E0 then E0 else E0 - 1);
            e = max (E - 52) (- 1074);
            N = (if 0 \<le> e then num else num * 2 ^ nat (- e));
            D = (if 0 \<le> e then den * 2 ^ nat e else den);
            q = N div D;
            r = N mod D;
            m = (if 2 * r < D then q
                 else if D < 2 * r then q + 1
                 else if even q then q else q + 1);
            m' = (if m = 2 ^ 53 then 2 ^ 52 else m);
            e' = (if m = 2 ^ 53 then e + 1 else e)
        in if 971 < e' then (if neg then NegInfinity else PosInfinity)
           else Fin (if neg then - m' else m') e')"

definition isDigit :: "jschar \<Rightarrow> bool" where
  "isDigit c \<longleftrightarrow> 0x30 \<le> c \<and> c \<le> 0x39"

definition digitValue :: "jschar \<Rightarrow> int" where
  "digitValue c = uint c - 0x30"

text \<open>The value of a string of decimal digits.\<close>

definition digitsValue :: "jsstring \<Rightarrow> int" where
  "digitsValue ds = foldl (\<lambda>a c. 10 * a + digitValue c) 0 ds"

text \<open>
  An ExponentPart \<open>e\<close> or \<open>E\<close>, an optional sign, and at least one digit; \<open>0\<close> when the
  text does not start with one (the prefix parsed then ends before it).
\<close>

definition exponentPart :: "jsstring \<Rightarrow> int" where
  "exponentPart s =
     (case s of
        [] \<Rightarrow> 0
      | c # r \<Rightarrow>
          if c = 0x65 \<or> c = 0x45 then
            (let neg = startsWith r 0x2D;
                 r' = (if startsWith r 0x2D \<or> startsWith r 0x2B then tl r else r);
                 ds = takeWhile isDigit r'
             in if ds = [] then 0
                else if neg then - digitsValue ds else digitsValue ds)
          else 0)"

text \<open>
  The global \<open>parseFloat\<close>: leading white space is skipped, the longest prefix that is
  a StrDecimalLiteral is read (an optional sign, then \<open>Infinity\<close> or decimal digits
  with an optional fraction and exponent, at least one digit before the exponent),
  and the rest is ignored; \<open>NaN\<close> when there is no such prefix.
\<close>

definition parseFloat :: "jsstring \<Rightarrow> jsnum" where
  "parseFloat s =
     (let t = dropWhile isWhiteSpace s;
          neg = startsWith t 0x2D;
          u = (if startsWith t 0x2D \<or> startsWith t 0x2B then tl t else t)
      in if take 8 u = js ''Infinity'' then (if neg then NegInfinity else PosInfinity)
         else
           let ip = takeWhile isDigit u;
               r1 = dropWhile isDigit u;
               fp = (if startsWith r1 0x2E then takeWhile isDigit (tl r1) else []);
               r2 = (if startsWith r1 0x2E then dropWhile isDigit (tl r1) else r1)
           in if ip = [] \<and> fp = [] then NaN
              else
                let x = exponentPart r2 - int (length fp);
                    d = digitsValue (ip @ fp)
                in if 0 \<le> x then toNumber neg (d * 10 ^ nat x) 1
                   else toNumber neg d (10 ^ nat (- x)))"

definition digitChar :: "int \<Rightarrow> jschar" where
  "digitChar d = of_int (0x30 + d)"

text \<open>The decimal digits of a non-negative integer, \<open>0\<close> as one digit.\<close>

function digits10 :: "int \<Rightarrow> jsstring" where
  "digits10 n = (if n < 10 then [digitChar n] else digits10 (n div 10) @ [digitChar (n mod 10)])"
  by pat_completeness auto
termination
  by (relation "measure nat") auto

declare digits10.simps [simp del]

text \<open>
  \<open>Number::toString\<close> for a Number \<open>x\<close> that is an integer \<open>N \<ge> 10 ^ 21\<close>: the decimal
  with the fewest significant digits whose Number value is \<open>x\<close> (of two with as many
  digits the one nearer to \<open>N\<close>, as the engines choose), in exponential notation.
\<close>

definition shortestDecimal :: "jsnum \<Rightarrow> int \<Rightarrow> int" where
  "shortestDecimal x N =
     (let n = length (digits10 N);
          candidates = (\<lambda>k.
             let p = 10 ^ (n - k); lo = (N div p) * p; hi = lo + p
             in if N - lo < hi - N then [lo, hi]
                else if hi - N < N - lo then [hi, lo]
                else if even (N div p) then [lo, hi] else [hi, lo])
      in case find (\<lambda>c. toNumber False c 1 = x) (concat (map candidates [1..<18])) of
           Some c \<Rightarrow> c
         | None \<Rightarrow> N)"

definition exponential :: "int \<Rightarrow> jsstring" where
  "exponential c =
     (let ds = digits10 c;
          sig = rev (dropWhile (\<lambda>d. d = 0x30) (rev ds))
      in hd sig # (if tl sig = [] then [] else 0x2E # tl sig)
         @ js ''e+'' @ digits10 (int (length ds) - 1))"

text \<open>
  \<open>x.toFixed(4)\<close>: a non-finite value prints by name; a magnitude of \<open>10 ^ 21\<close> or more
  prints as \<open>Number::toString\<close> does; otherwise \<open>n\<close> is the integer nearest to
  \<open>\<bar>x\<bar> * 10 ^ 4\<close> (the larger of two) and the result is its digits, padded with
  zeros to five, with a point before the last four.
\<close>

definition toFixed4 :: "jsnum \<Rightarrow> jsstring" where
  "toFixed4 x =
     (case x of
        NaN \<Rightarrow> js ''NaN''
      | PosInfinity \<Rightarrow> js ''Infinity''
      | NegInfinity \<Rightarrow> js ''-Infinity''
      | Fin m e \<Rightarrow>
          let s = (if m < 0 then js ''-'' else []);
              a = \<bar>m\<bar>
          in if 0 \<le> e \<and> 10 ^ 21 \<le> a * 2 ^ nat e
             then s @ exponential (shortestDecimal (Fin a e) (a * 2 ^ nat e))
             else
               let n = (if 0 \<le> e then a * 2 ^ nat e * 10000
                        else (a * 20000 + 2 ^ nat (- e)) div (2 * 2 ^ nat (- e)));
                   ds = digits10 n;
                   padded = replicate (5 - length ds) 0x30 @ ds;
                   k = length padded
               in s @ take (k - 4) padded @ [0x2E] @ drop (k - 4) padded)"

section \<open>The Newick parser\<close>

text \<open>
  The scan for the closing parenthesis: \<open>i\<close> is the index of the first code unit of
  the text left to read and \<open>depth\<close> the counter; \<open>None\<close> is \<open>endParen = -1\<close> at the end
  of the loop.
\<close>

fun findEndParenFrom :: "jsstring \<Rightarrow> nat \<Rightarrow> int \<Rightarrow> nat option" where
  "findEndParenFrom [] i depth = None"
| "findEndParenFrom (c # cs) i depth =
     (if c = lparen then findEndParenFrom cs (i + 1) (depth + 1)
      else if c = rparen then
        (if depth - 1 = 0 then Some i else findEndParenFrom cs (i + 1) (depth - 1))
      else findEndParenFrom cs (i + 1) depth)"

definition findEndParen :: "jsstring \<Rightarrow> nat option" where
  "findEndParen str = findEndParenFrom str 0 0"

text \<open>\<open>if (current.trim()) children.push(current.trim())\<close>\<close>

definition pushChild :: "jsstring list \<Rightarrow> jsstring \<Rightarrow> jsstring list" where
  "pushChild children current =
     (if trim current \<noteq> [] then children @ [trim current] else children)"

text \<open>The loop over \<open>childrenStr\<close>, with its variables \<open>depth\<close>, \<open>current\<close> and
  \<open>children\<close>, and the push after it.\<close>

fun splitChildrenFrom :: "jsstring \<Rightarrow> int \<Rightarrow> jsstring \<Rightarrow> jsstring list \<Rightarrow> jsstring list" where
  "splitChildrenFrom [] depth current children = pushChild children current"
| "splitChildrenFrom (char # cs) depth current children =
     (if char = lparen then splitChildrenFrom cs (depth + 1) (current @ [char]) children
      else if char = rparen then splitChildrenFrom cs (depth - 1) (current @ [char]) children
      else if char = comma \<and> depth = 0 then splitChildrenFrom cs depth [] (pushChild children current)
      else splitChildrenFrom cs depth (current @ [char]) children)"

definition splitChildren :: "jsstring \<Rightarrow> jsstring list" where
  "splitChildren childrenStr = splitChildrenFrom childrenStr 0 [] []"

text \<open>
  A parsed node is the object \<open>{ children, name, length }\<close>; \<open>name\<close> is \<open>null\<close> only in
  the node returned when no closing parenthesis is found.
\<close>

datatype tree = Node (children: "tree list") (name: "jsstring option") (length_node: jsnum)

text \<open>\<open>s || 'Internal'\<close> on a string.\<close>

definition orInternal :: "jsstring \<Rightarrow> jsstring" where
  "orInternal s = (if s \<noteq> [] then s else js ''Internal'')"

text \<open>The label and branch length read from the text after the closing parenthesis.\<close>

definition internalNode :: "tree list \<Rightarrow> jsstring \<Rightarrow> tree" where
  "internalNode node_children afterParen =
     (case indexOf afterParen colon of
        Some (Suc k) \<Rightarrow>
          Node node_children
            (Some (orInternal (trim (substring afterParen 0 (Suc k)))))
            (or0 (parseFloat (substringFrom afterParen (Suc k + 1))))
      | Some 0 \<Rightarrow>
          Node node_children (Some (js ''Internal''))
            (or0 (parseFloat (substringFrom afterParen 1)))
      | None \<Rightarrow>
          Node node_children (Some (orInternal (trim afterParen))) zero)"

text \<open>The leaf branch, on the trimmed text.\<close>

definition leafNode :: "jsstring \<Rightarrow> tree" where
  "leafNode str =
     (case indexOf str colon of
        Some (Suc k) \<Rightarrow>
          Node [] (Some (trim (substring str 0 (Suc k))))
            (or0 (parseFloat (substringFrom str (Suc k + 1))))
      | _ \<Rightarrow> Node [] (Some (trim str)) zero)"

text \<open>The texts on which \<open>parseNode\<close> calls itself: the children found in \<open>childrenStr\<close>.\<close>

definition childStrings :: "jsstring \<Rightarrow> nat \<Rightarrow> jsstring list" where
  "childStrings str endParen = splitChildren (substring str 1 endParen)"

lemma length_trim_le: "length (trim s) \<le> length s"
  unfolding trim_def
  by (metis length_dropWhile_le length_rev order_trans)

lemma length_pushChild:
  "c \<in> set (pushChild acc cur) \<Longrightarrow> c \<in> set acc \<or> length c \<le> length cur"
  by (auto simp: pushChild_def length_trim_le split: if_splits)

lemma splitChildrenFrom_length:
  "c \<in> set (splitChildrenFrom cs d cur acc) \<Longrightarrow>
     c \<in> set acc \<or> length c \<le> length cur + length cs"
proof (induction cs d cur acc rule: splitChildrenFrom.induct)
  case (1 depth current children)
  then show ?case using length_pushChild by fastforce
next
  case (2 char cs depth current children)
  then show ?case
    by (fastforce split: if_splits dest: length_pushChild)
qed

lemma findEndParenFrom_rparen:
  "findEndParenFrom cs i d = Some e \<Longrightarrow> i \<le> e \<and> e - i < length cs \<and> cs ! (e - i) = rparen"
proof (induction cs i d rule: findEndParenFrom.induct)
  case (1 i depth)
  then show ?case by simp
next
  case (2 c cs i depth)
  show ?case
  proof (cases "c = rparen \<and> depth - 1 = 0")
    case True
    with "2.prems" show ?thesis by simp
  next
    case False
    with "2.prems" "2.IH" have "i + 1 \<le> e \<and> e - (i + 1) < length cs \<and> cs ! (e - (i + 1)) = rparen"
      by (auto split: if_splits)
    moreover from this have "e - i = Suc (e - (i + 1))" by arith
    ultimately show ?thesis by simp
  qed
qed

lemma findEndParen_pos:
  assumes "startsWith str lparen" and "findEndParen str = Some endParen"
  shows "0 < endParen"
proof (rule ccontr)
  assume "\<not> 0 < endParen"
  then have "endParen = 0" by simp
  with findEndParenFrom_rparen[of str 0 0 endParen] assms(2)
  have "str ! 0 = rparen" by (simp add: findEndParen_def)
  with assms(1) show False
    by (auto simp: startsWith_def split: list.splits)
qed

lemma childStrings_shorter:
  assumes "startsWith str lparen" and "findEndParen str = Some endParen"
    and "c \<in> set (childStrings str endParen)"
  shows "length c < length str"
proof -
  from assms(1) obtain r where str: "str = lparen # r"
    by (auto simp: startsWith_def split: list.splits)
  from assms(1,2) have "0 < endParen" by (rule findEndParen_pos)
  then have "length (substring str 1 endParen) < length str"
    by (auto simp: substring_def str Let_def min_def max_def)
  moreover from assms(3) have "length c \<le> length (substring str 1 endParen)"
    using splitChildrenFrom_length[of c "substring str 1 endParen" 0 "[]" "[]"]
    by (simp add: childStrings_def splitChildren_def)
  ultimately show ?thesis by simp
qed

text \<open>
  \<open>parseNode\<close>: the text is trimmed; a text that starts with \<open>(\<close> is an internal node,
  whose children are parsed from the texts between the top-level commas inside the
  parentheses; any other text is a leaf. The depth of the recursion is not bounded
  here; the call stack of an engine is.
\<close>

function parseNode :: "jsstring \<Rightarrow> tree" where
  "parseNode s =
     (let str = trim s
      in if startsWith str lparen then
           (case findEndParen str of
              None \<Rightarrow> Node [] None zero
            | Some endParen \<Rightarrow>
                internalNode (map parseNode (childStrings str endParen))
                  (substringFrom str (endParen + 1)))
         else leafNode str)"
  by pat_completeness auto
termination
proof (relation "measure length")
  show "wf (measure length)" by simp
next
  fix s str x2 c
  assume "str = trim s" "startsWith str lparen" "findEndParen str = Some x2"
    "c \<in> set (childStrings str x2)"
  then have "length c < length (trim s)" using childStrings_shorter by blast
  then show "(c, s) \<in> measure length"
    using length_trim_le[of s] by simp
qed

declare parseNode.simps [simp del]

text \<open>\<open>newick.replace(/;$/, '')\<close>: the pattern matches one semicolon at the very end
  of the text, and only the first match is replaced.\<close>

definition replaceSemicolon :: "jsstring \<Rightarrow> jsstring" where
  "replaceSemicolon newick =
     (if newick \<noteq> [] \<and> last newick = semicolon then butlast newick else newick)"

definition parseNewick :: "jsstring \<Rightarrow> tree" where
  "parseNewick newick = parseNode (trim (replaceSemicolon newick))"

section \<open>The renderer\<close>

definition connector :: "bool \<Rightarrow> jsstring" where
  "connector isLast =
     (if isLast then [0x2514, 0x2500, 0x2500, 0x20] else [0x251C, 0x2500, 0x2500, 0x20])"

text \<open>\<open>tree.name || 'Internal Node'\<close>: \<open>null\<close> and the empty string are falsy.\<close>

definition nameOrDefault :: "jsstring option \<Rightarrow> jsstring" where
  "nameOrDefault n =
     (case n of None \<Rightarrow> js ''Internal Node''
      | Some x \<Rightarrow> if x \<noteq> [] then x else js ''Internal Node'')"

text \<open>\<open>tree.length ? ` (${tree.length.toFixed(4)})` : ''\<close>\<close>

definition lengthText :: "jsnum \<Rightarrow> jsstring" where
  "lengthText l = (if truthy l then js '' ('' @ toFixed4 l @ js '')'' else [])"

definition extendPrefix :: "jsstring \<Rightarrow> bool \<Rightarrow> jsstring" where
  "extendPrefix prefix isLast =
     prefix @ (if isLast then js ''    '' else [0x2502, 0x20, 0x20, 0x20])"

text \<open>
  \<open>renderTreeAscii\<close>: \<open>result\<close> starts as the node's own line, and \<open>forEach\<close> appends the
  rendering of each child, passing \<open>index === tree.children.length - 1\<close> as \<open>isLast\<close>.
\<close>

function renderTreeAscii :: "tree \<Rightarrow> jsstring \<Rightarrow> bool \<Rightarrow> jsstring" where
  "renderTreeAscii tree prefix isLast =
     (let result = prefix @ connector isLast @ nameOrDefault (name tree)
                   @ lengthText (length_node tree) @ [newline]
      in if 0 < length (children tree) then
           foldl (\<lambda>result ic.
                    result @ renderTreeAscii (snd ic) (extendPrefix prefix isLast)
                               (int (fst ic) = int (length (children tree)) - 1))
             result (zip [0..<length (children tree)] (children tree))
         else result)"
  by pat_completeness auto
termination
proof (relation "measure (\<lambda>(t, p, b). size t)")
  show "wf (measure (\<lambda>(t, p, b). size t))" by simp
next
  fix tree :: tree and prefix :: jsstring and isLast :: bool and x z :: jsstring
    and xa ya
  assume "ya \<in> set (zip [0..<length (children tree)] (children tree))"
  then have "snd ya \<in> set (children tree)"
    by (metis prod.collapse set_zip_rightD)
  then have "size (snd ya) < size tree"
    by (cases tree) (auto simp: less_Suc_eq_le size_list_estimation')
  then show "((snd ya, extendPrefix prefix isLast,
               int (fst ya) = int (length (children tree)) - 1),
              tree, prefix, isLast) \<in> measure (\<lambda>(t, p, b). size t)"
    by simp
qed

declare renderTreeAscii.simps [simp del]

section \<open>Parenthesis depth and the matching parenthesis\<close>

text \<open>The number of opening parentheses of a text minus the number of closing ones.\<close>

fun depthOf :: "jsstring \<Rightarrow> int" where
  "depthOf [] = 0"
| "depthOf (c # cs) =
     (if c = lparen then 1 else if c = rparen then - 1 else 0) + depthOf cs"

text \<open>Index \<open>e\<close> holds a closing parenthesis that brings the depth, counted from the
  start of the text, back to \<open>0\<close>.\<close>

definition closesAt :: "jsstring \<Rightarrow> nat \<Rightarrow> bool" where
  "closesAt str e \<longleftrightarrow>
     e < length str \<and> str ! e = rparen \<and> depthOf (take (Suc e) str) = 0"

text \<open>The closing parenthesis that matches the first \<open>(\<close> of a text that starts with
  one: the first index that closes.\<close>

definition matchingParen :: "jsstring \<Rightarrow> nat \<Rightarrow> bool" where
  "matchingParen str e \<longleftrightarrow> closesAt str e \<and> list_all (\<lambda>k. \<not> closesAt str k) [0..<e]"

text \<open>The same for the loop started with the counter at \<open>d\<close>.\<close>

definition closesFrom :: "int \<Rightarrow> jsstring \<Rightarrow> nat \<Rightarrow> bool" where
  "closesFrom d cs k \<longleftrightarrow>
     k < length cs \<and> cs ! k = rparen \<and> d + depthOf (take (Suc k) cs) = 0"

text \<open>What one code unit adds to the depth.\<close>

definition parenStep :: "jschar \<Rightarrow> int" where
  "parenStep c = (if c = lparen then 1 else if c = rparen then - 1 else 0)"

text \<open>
  The texts between the commas at depth \<open>0\<close> of a text read from depth \<open>d\<close>: a comma
  met at depth \<open>0\<close> ends a piece and starts the next one, every other code unit joins
  the piece being read.
\<close>

fun topLevelPieces :: "int \<Rightarrow> jsstring \<Rightarrow> jsstring list" where
  "topLevelPieces d [] = [[]]"
| "topLevelPieces d (c # cs) =
     (if c = comma \<and> d = 0 then [] # topLevelPieces d cs
      else (case topLevelPieces (d + parenStep c) cs of
              [] \<Rightarrow> [[c]]
            | p # ps \<Rightarrow> (c # p) # ps))"

text \<open>The pieces put back together, with \<open>c\<close> between each two.\<close>

fun joinWith :: "jschar \<Rightarrow> jsstring list \<Rightarrow> jsstring" where
  "joinWith c [] = []"
| "joinWith c [p] = p"
| "joinWith c (p # q # ps) = p @ c # joinWith c (q # ps)"

text \<open>No comma of the text stands at depth \<open>0\<close>, counted from the start of the text.\<close>

definition noTopComma :: "jsstring \<Rightarrow> bool" where
  "noTopComma p = list_all (\<lambda>i. p ! i \<noteq> comma \<or> depthOf (take i p) \<noteq> 0) [0..<length p]"

text \<open>
  Pieces read from depth \<open>d\<close>: no comma of a piece stands at depth \<open>0\<close>, and every piece
  but the last ends at depth \<open>0\<close>, where the comma that follows it stands.
\<close>

fun separated :: "int \<Rightarrow> jsstring list \<Rightarrow> bool" where
  "separated d [] = True"
| "separated d [p] = list_all (\<lambda>i. p ! i \<noteq> comma \<or> d + depthOf (take i p) \<noteq> 0) [0..<length p]"
| "separated d (p # q # ps) =
     (list_all (\<lambda>i. p ! i \<noteq> comma \<or> d + depthOf (take i p) \<noteq> 0) [0..<length p]
      \<and> d + depthOf p = 0 \<and> separated 0 (q # ps))"

text \<open>A property that holds of a node and of every node below it.\<close>

fun allNodes :: "(tree \<Rightarrow> bool) \<Rightarrow> tree \<Rightarrow> bool" where
  "allNodes P (Node cs n l) = (P (Node cs n l) \<and> list_all (allNodes P) cs)"

text \<open>
  A text in fixed notation with four decimal places: an optional minus sign, one digit
  or more, a point, and four digits.
\<close>

definition fixed4 :: "jsstring \<Rightarrow> bool" where
  "fixed4 s =
     (let u = (if startsWith s 0x2D then tl s else s)
      in 6 \<le> length u \<and> u ! (length u - 5) = 0x2E
         \<and> list_all isDigit (take (length u - 5) u)
         \<and> list_all isDigit (drop (length u - 4) u))"

text \<open>The texts on which the evaluation of \<open>parseNode s\<close> calls \<open>parseNode\<close>.\<close>

definition recursiveCalls :: "jsstring \<Rightarrow> jsstring list" where
  "recursiveCalls s =
     (if startsWith (trim s) lparen then
        (case findEndParen (trim s) of
           None \<Rightarrow> []
         | Some endParen \<Rightarrow> childStrings (trim s) endParen)
      else [])"

text \<open>
  The text in which a node's branch length stands, if there is one: what follows the
  first colon after the closing parenthesis that matches the first \<open>(\<close> for a text
  that, trimmed, starts with \<open>(\<close>, and what follows the first colon for any other
  text. There is none when there is no such colon, or no such parenthesis.
\<close>

definition branchLengthText :: "jsstring \<Rightarrow> jsstring option" where
  "branchLengthText s =
     (let t = trim s
      in if startsWith t lparen then
           (case find (closesAt t) [0..<length t] of
              None \<Rightarrow> None
            | Some e \<Rightarrow>
                if colon \<in> set (drop (Suc e) t)
                then Some (tl (dropWhile (\<lambda>c. c \<noteq> colon) (drop (Suc e) t)))
                else None)
         else if colon \<in> set t
              then Some (tl (dropWhile (\<lambda>c. c \<noteq> colon) t))
              else None)"

text \<open>The nodes of a parsed tree, parents first and children from left to right.\<close>

fun nodes :: "tree \<Rightarrow> tree list" where
  "nodes (Node cs n l) = Node cs n l # concat (map nodes cs)"

section \<open>The serializer of the specification\<close>

text \<open>
  Modelled from the spec: the TreeNode of section 3 and the Newick writer of section
  4.4, which are not among the sources (the repository's backend is absent). A node is
  a leaf with a name and a branch length, or an internal node with its children in
  order, an optional label and a branch length; the height of an internal node is not
  serialized and is left out.
\<close>

datatype treeNode = Leaf jsstring real | Internal "treeNode list" "jsstring option" real

fun branch_length :: "treeNode \<Rightarrow> real" where
  "branch_length (Leaf n l) = l"
| "branch_length (Internal ts lab l) = l"

text \<open>The label as it is written: nothing when it is absent.\<close>

definition labelText :: "jsstring option \<Rightarrow> jsstring" where
  "labelText lab = (case lab of None \<Rightarrow> [] | Some x \<Rightarrow> x)"

text \<open>
  Modelled from the spec: the grammar of section 4.4 for a node that is not the root,
  \<open>leaf := name ':' branch_length\<close> and \<open>internal := '(' subtree (',' subtree)* ')'
  [name] ':' branch_length\<close>, the branch length always written. The spec leaves the
  format of a branch length open (a decimal number, fixed or variable precision), so
  it is the parameter \<open>fmt\<close>.
\<close>

fun subtree :: "(real \<Rightarrow> jsstring) \<Rightarrow> treeNode \<Rightarrow> jsstring" where
  "subtree fmt (Leaf n l) = n @ colon # fmt l"
| "subtree fmt (Internal ts lab l) =
     lparen # joinWith comma (map (subtree fmt) ts) @ rparen # labelText lab @ colon # fmt l"

text \<open>The text of a node up to its name or label.\<close>

definition body :: "(real \<Rightarrow> jsstring) \<Rightarrow> treeNode \<Rightarrow> jsstring" where
  "body fmt t =
     (case t of
        Leaf n l \<Rightarrow> n
      | Internal ts lab l \<Rightarrow>
          lparen # joinWith comma (map (subtree fmt) ts) @ rparen # labelText lab)"

text \<open>
  Modelled from the spec: \<open>tree := subtree ';'\<close>, the branch length of the root
  left out when it is exactly \<open>0\<close>.
\<close>

definition serialize :: "(real \<Rightarrow> jsstring) \<Rightarrow> treeNode \<Rightarrow> jsstring" where
  "serialize fmt t =
     body fmt t
     @ (if branch_length t = 0 then [] else colon # fmt (branch_length t))
     @ [semicolon]"

text \<open>A text that holds none of \<open>( ) , : ;\<close>.\<close>

definition plain :: "jsstring \<Rightarrow> bool" where
  "plain s = list_all (\<lambda>c. c \<notin> {lparen, rparen, comma, colon, semicolon}) s"

text \<open>The Number \<open>y\<close> is finite and within \<open>1e-9\<close> of the real \<open>x\<close>.\<close>

definition withinTolerance :: "real \<Rightarrow> jsnum \<Rightarrow> bool" where
  "withinTolerance x y =
     (case y of
        Fin m e \<Rightarrow>
          \<bar>(if 0 \<le> e then of_int m * 2 ^ nat e else of_int m / 2 ^ nat (- e)) - x\<bar>
            \<le> 1 / 10 ^ 9
      | _ \<Rightarrow> False)"

text \<open>A leaf name the round trip keeps: not empty, no white space at either end, none
  of the five characters.\<close>

definition nameText :: "jsstring \<Rightarrow> bool" where
  "nameText n \<longleftrightarrow> n \<noteq> [] \<and> trim n = n \<and> plain n"

text \<open>
  Modelled from the spec: \<open>branch_length := decimal number\<close> in the grammar of section
  4.4, read as one or more decimal digits, optionally followed by a point and one or
  more decimal digits. \<open>fractionDigits\<close> are the digits after the point, and
  \<open>decimalValue\<close> is the number the text denotes.
\<close>

definition fractionDigits :: "jsstring \<Rightarrow> jsstring" where
  "fractionDigits s = (case dropWhile isDigit s of [] \<Rightarrow> [] | c # r \<Rightarrow> r)"

definition decimalText :: "jsstring \<Rightarrow> bool" where
  "decimalText s \<longleftrightarrow>
     takeWhile isDigit s \<noteq> []
     \<and> (case dropWhile isDigit s of
          [] \<Rightarrow> True
        | c # r \<Rightarrow> c = 0x2E \<and> r \<noteq> [] \<and> list_all isDigit r)"

definition decimalValue :: "jsstring \<Rightarrow> real" where
  "decimalValue s =
     of_int (digitsValue (takeWhile isDigit s @ fractionDigits s))
     / 10 ^ length (fractionDigits s)"

text \<open>
  What the round trip needs of the text written for the branch length \<open>l\<close>: it is a
  decimal number, its value is below \<open>2 ^ 23\<close>, and its value is within \<open>5e-10\<close> of
  \<open>l\<close>, as it is when \<open>l\<close> is written rounded to nine decimal places or more.
\<close>

definition lengthText_ok :: "(real \<Rightarrow> jsstring) \<Rightarrow> real \<Rightarrow> bool" where
  "lengthText_ok fmt l \<longleftrightarrow>
     decimalText (fmt l) \<and> decimalValue (fmt l) < 2 ^ 23
     \<and> \<bar>decimalValue (fmt l) - l\<bar> \<le> 5 / 10 ^ 10"

text \<open>A node that is not the root: names, labels and branch lengths as above, and
  every internal node with a child.\<close>

fun wellFormed :: "(real \<Rightarrow> jsstring) \<Rightarrow> treeNode \<Rightarrow> bool" where
  "wellFormed fmt (Leaf n l) = (nameText n \<and> lengthText_ok fmt l)"
| "wellFormed fmt (Internal ts lab l) =
     (ts \<noteq> [] \<and> list_all (wellFormed fmt) ts
      \<and> trim (labelText lab) = labelText lab \<and> plain (labelText lab)
      \<and> lengthText_ok fmt l)"

text \<open>The same for the root, whose branch length is not written when it is \<open>0\<close>.\<close>

definition wellFormedRoot :: "(real \<Rightarrow> jsstring) \<Rightarrow> treeNode \<Rightarrow> bool" where
  "wellFormedRoot fmt t =
     (case t of
        Leaf n l \<Rightarrow> nameText n \<and> (l = 0 \<or> lengthText_ok fmt l)
      | Internal ts lab l \<Rightarrow>
          ts \<noteq> [] \<and> list_all (wellFormed fmt) ts
          \<and> trim (labelText lab) = labelText lab \<and> plain (labelText lab)
          \<and> (l = 0 \<or> lengthText_ok fmt l))"

text \<open>
  The parsed node \<open>k\<close> is the node \<open>t\<close>: a leaf has no children and its name; an
  internal node has its children matched one by one in order, and its label, or
  \<open>Internal\<close> when the label is absent or empty; branch lengths agree within \<open>1e-9\<close>.
\<close>

primrec matches :: "treeNode \<Rightarrow> tree \<Rightarrow> bool" where
  "matches (Leaf n l) k =
     (children k = [] \<and> name k = Some n \<and> withinTolerance l (length_node k))"
| "matches (Internal ts lab l) k =
     (list_all2 (\<lambda>m c. m c) (map matches ts) (children k)
      \<and> name k = Some (if labelText lab = [] then js ''Internal'' else labelText lab)
      \<and> withinTolerance l (length_node k))"

text \<open>The names of the leaves, from left to right: of a node of the specification,
  and of a parsed node, where a leaf is a node without children.\<close>

fun leafNames :: "treeNode \<Rightarrow> jsstring list" where
  "leafNames (Leaf n l) = [n]"
| "leafNames (Internal ts lab l) = concat (map leafNames ts)"

fun parsedLeafNames :: "tree \<Rightarrow> jsstring option list" where
  "parsedLeafNames (Node cs nm len) =
     (if cs = [] then [nm] else concat (map parsedLeafNames cs))"

text \<open>A text with no parenthesis and no comma.\<close>

definition neutral :: "jsstring \<Rightarrow> bool" where
  "neutral s = list_all (\<lambda>c. c \<noteq> lparen \<and> c \<noteq> rparen \<and> c \<noteq> comma) s"

text \<open>A text put in front of the first piece.\<close>

definition prependFirst :: "jsstring \<Rightarrow> jsstring list \<Rightarrow> jsstring list" where
  "prependFirst s ps = (s @ hd ps) # tl ps"

text \<open>What follows the name or label: nothing, or a colon and the text of a branch
  length.\<close>

definition suffixText :: "jsstring \<Rightarrow> bool" where
  "suffixText sfx \<longleftrightarrow>
     sfx = [] \<or> (hd sfx = colon \<and> tl sfx \<noteq> [] \<and> \<not> isWhiteSpace (last sfx) \<and> plain (tl sfx))"

section \<open>Trimming\<close>

lemma trim_id:
  assumes "s = [] \<or> (\<not> isWhiteSpace (hd s) \<and> \<not> isWhiteSpace (last s))"
  shows "trim s = s"
proof (cases "s = []")
  case True
  then show ?thesis by (simp add: trim_def)
next
  case False
  with assms have h: "\<not> isWhiteSpace (hd s)" and l: "\<not> isWhiteSpace (last s)" by auto
  from False h have 1: "dropWhile isWhiteSpace s = s"
    by (cases s) auto
  from False l have 2: "dropWhile isWhiteSpace (rev s) = rev s"
    by (cases "rev s") (auto simp: last_rev[symmetric] simp del: last_rev)
  show ?thesis by (simp add: trim_def 1 2)
qed

lemma trim_ends:
  "trim s = [] \<or> (\<not> isWhiteSpace (hd (trim s)) \<and> \<not> isWhiteSpace (last (trim s)))"
proof (cases "trim s = []")
  case True
  then show ?thesis by simp
next
  case False
  let ?u = "dropWhile isWhiteSpace s"
  let ?v = "dropWhile isWhiteSpace (rev ?u)"
  from False have v: "?v \<noteq> []" by (simp add: trim_def)
  then have hv: "\<not> isWhiteSpace (hd ?v)" by (rule hd_dropWhile)
  from v have u: "?u \<noteq> []" by (cases "?u = []") simp_all
  then have hu: "\<not> isWhiteSpace (hd ?u)" by (rule hd_dropWhile)
  obtain p where p: "rev ?u = p @ ?v"
    by (metis takeWhile_dropWhile_id)
  from v p have "last ?v = last (rev ?u)" by (metis last_appendR)
  also have "\<dots> = hd ?u" using u by (simp add: last_rev)
  finally have lv: "\<not> isWhiteSpace (last ?v)" using hu by simp
  have "hd (trim s) = last ?v" using v by (simp add: trim_def hd_rev)
  moreover have "last (trim s) = hd ?v" using v by (simp add: trim_def last_rev)
  ultimately show ?thesis using hv lv by simp
qed

lemma trim_trim [simp]: "trim (trim s) = trim s"
  using trim_ends[of s] by (rule trim_id)


section \<open>The scan for the closing parenthesis\<close>

lemma depthOf_append: "depthOf (xs @ ys) = depthOf xs + depthOf ys"
  by (induction xs) auto

lemma closesFrom_Cons_0:
  "closesFrom d (c # cs) 0 \<longleftrightarrow> c = rparen \<and> d - 1 = 0"
  by (auto simp: closesFrom_def)

lemma closesFrom_Cons_Suc:
  "closesFrom d (c # cs) (Suc k) \<longleftrightarrow>
     closesFrom (d + (if c = lparen then 1 else if c = rparen then - 1 else 0)) cs k"
  by (auto simp: closesFrom_def)

lemma findEndParenFrom_None:
  "findEndParenFrom cs i d = None \<longleftrightarrow> (\<forall>k. \<not> closesFrom d cs k)"
proof (induction cs i d rule: findEndParenFrom.induct)
  case (1 i depth)
  then show ?case by (simp add: closesFrom_def)
next
  case (2 c cs i depth)
  have split: "(\<forall>k. \<not> closesFrom depth (c # cs) k) \<longleftrightarrow>
      \<not> closesFrom depth (c # cs) 0 \<and> (\<forall>k. \<not> closesFrom depth (c # cs) (Suc k))"
    by (metis not0_implies_Suc)
  show ?case
    unfolding split closesFrom_Cons_0 closesFrom_Cons_Suc
    using "2.IH" by auto
qed

lemma findEndParenFrom_Some:
  "findEndParenFrom cs i d = Some e \<longleftrightarrow>
     (\<exists>k. e = i + k \<and> closesFrom d cs k \<and> (\<forall>j<k. \<not> closesFrom d cs j))"
proof (induction cs i d arbitrary: e rule: findEndParenFrom.induct)
  case (1 i depth)
  then show ?case by (simp add: closesFrom_def)
next
  case (2 c cs i depth)
  let ?d' = "depth + (if c = lparen then 1 else if c = rparen then - 1 else 0)"
  show ?case
  proof (cases "c = rparen \<and> depth - 1 = 0")
    case True
    then have c0: "closesFrom depth (c # cs) 0" by (simp add: closesFrom_Cons_0)
    have "(\<exists>k. e = i + k \<and> closesFrom depth (c # cs) k \<and> (\<forall>j<k. \<not> closesFrom depth (c # cs) j))
          \<longleftrightarrow> e = i"
    proof
      assume "\<exists>k. e = i + k \<and> closesFrom depth (c # cs) k \<and> (\<forall>j<k. \<not> closesFrom depth (c # cs) j)"
      then obtain k where k: "e = i + k" "\<forall>j<k. \<not> closesFrom depth (c # cs) j" by blast
      with c0 have "k = 0" by (cases k) auto
      with k show "e = i" by simp
    next
      assume "e = i"
      with c0 show "\<exists>k. e = i + k \<and> closesFrom depth (c # cs) k \<and> (\<forall>j<k. \<not> closesFrom depth (c # cs) j)"
        by (intro exI[of _ 0]) simp
    qed
    with True show ?thesis by auto
  next
    case False
    then have n0: "\<not> closesFrom depth (c # cs) 0" by (simp add: closesFrom_Cons_0)
    have rec: "findEndParenFrom (c # cs) i depth = findEndParenFrom cs (i + 1) ?d'"
      using False by auto
    have IH: "findEndParenFrom cs (i + 1) ?d' = Some e \<longleftrightarrow>
       (\<exists>k. e = i + 1 + k \<and> closesFrom ?d' cs k \<and> (\<forall>j<k. \<not> closesFrom ?d' cs j))"
      using False "2.IH"[of e] by (auto split: if_splits)
    have "(\<exists>k. e = i + k \<and> closesFrom depth (c # cs) k \<and> (\<forall>j<k. \<not> closesFrom depth (c # cs) j))
       \<longleftrightarrow> (\<exists>k. e = i + 1 + k \<and> closesFrom ?d' cs k \<and> (\<forall>j<k. \<not> closesFrom ?d' cs j))"
      (is "?L \<longleftrightarrow> ?R")
    proof
      assume ?L
      then obtain k where k: "e = i + k" "closesFrom depth (c # cs) k"
        "\<forall>j<k. \<not> closesFrom depth (c # cs) j" by blast
      with n0 obtain k' where k': "k = Suc k'" by (cases k) auto
      have "closesFrom ?d' cs k'" using k(2) unfolding k' closesFrom_Cons_Suc .
      moreover have "\<forall>j<k'. \<not> closesFrom ?d' cs j"
        using k(3) unfolding k' by (metis closesFrom_Cons_Suc Suc_less_eq)
      ultimately show ?R using k(1) k' by auto
    next
      assume ?R
      then obtain k where k: "e = i + 1 + k" "closesFrom ?d' cs k"
        "\<forall>j<k. \<not> closesFrom ?d' cs j" by blast
      have "closesFrom depth (c # cs) (Suc k)" using k(2) unfolding closesFrom_Cons_Suc .
      moreover have "\<forall>j<Suc k. \<not> closesFrom depth (c # cs) j"
      proof (intro allI impI)
        fix j assume "j < Suc k"
        then show "\<not> closesFrom depth (c # cs) j"
          using n0 k(3) by (cases j) (auto simp: closesFrom_Cons_Suc)
      qed
      ultimately show ?L using k(1) by (intro exI[of _ "Suc k"]) simp
    qed
    with rec IH show ?thesis by simp
  qed
qed

lemma closesFrom_0: "closesFrom 0 str k \<longleftrightarrow> closesAt str k"
  by (simp add: closesFrom_def closesAt_def)

lemma findEndParen_matching: "findEndParen str = Some e \<longleftrightarrow> matchingParen str e"
  by (auto simp: findEndParen_def findEndParenFrom_Some closesFrom_0 matchingParen_def list_all_iff)

lemma findEndParen_None: "findEndParen str = None \<longleftrightarrow> (\<forall>k. \<not> closesAt str k)"
  by (simp add: findEndParen_def findEndParenFrom_None closesFrom_0)



section \<open>The first colon, and one step of \<open>parseNode\<close>\<close>

lemma indexOf_None: "indexOf s c = None \<longleftrightarrow> c \<notin> set s"
  by (induction s) auto

lemma indexOf_Some:
  "indexOf s c = Some k \<Longrightarrow>
     take k s = takeWhile (\<lambda>x. x \<noteq> c) s \<and> drop k s = dropWhile (\<lambda>x. x \<noteq> c) s
     \<and> k < length s \<and> s ! k = c"
proof (induction s arbitrary: k)
  case Nil
  then show ?case by simp
next
  case (Cons x xs)
  show ?case
  proof (cases "x = c")
    case True
    with Cons.prems show ?thesis by simp
  next
    case False
    with Cons.prems obtain j where j: "indexOf xs c = Some j" "k = Suc j" by auto
    with Cons.IH[OF j(1)] False show ?thesis by simp
  qed
qed

lemma indexOf_substrings:
  assumes "indexOf s c = Some k"
  shows "substring s 0 k = takeWhile (\<lambda>x. x \<noteq> c) s"
    and "substringFrom s (k + 1) = tl (dropWhile (\<lambda>x. x \<noteq> c) s)"
proof -
  from indexOf_Some[OF assms]
  have t: "take k s = takeWhile (\<lambda>x. x \<noteq> c) s"
    and d: "drop k s = dropWhile (\<lambda>x. x \<noteq> c) s" and k: "k < length s"
    by simp_all
  from k have "substring s 0 k = take k s"
    by (simp add: substring_def Let_def min_def max_def)
  with t show "substring s 0 k = takeWhile (\<lambda>x. x \<noteq> c) s" by simp
  have "substringFrom s (k + 1) = tl (drop k s)"
    by (simp add: substringFrom_def drop_Suc tl_drop)
  with d show "substringFrom s (k + 1) = tl (dropWhile (\<lambda>x. x \<noteq> c) s)" by simp
qed

lemma indexOf_0: "indexOf s c = Some 0 \<longleftrightarrow> s \<noteq> [] \<and> hd s = c"
  by (cases s) auto

lemma leafNode_eq:
  "leafNode str =
     (if colon \<in> set str \<and> hd str \<noteq> colon
      then Node [] (Some (trim (takeWhile (\<lambda>c. c \<noteq> colon) str)))
             (or0 (parseFloat (tl (dropWhile (\<lambda>c. c \<noteq> colon) str))))
      else Node [] (Some (trim str)) zero)"
proof (cases "indexOf str colon")
  case None
  then have "colon \<notin> set str" by (simp add: indexOf_None)
  with None show ?thesis by (simp add: leafNode_def)
next
  case (Some k)
  then have in_set: "colon \<in> set str"
    by (metis indexOf_None option.distinct(1))
  show ?thesis
  proof (cases k)
    case 0
    with Some have "hd str = colon" by (simp add: indexOf_0)
    with Some 0 show ?thesis by (simp add: leafNode_def)
  next
    case (Suc j)
    with Some have "hd str \<noteq> colon"
      by (metis indexOf_0 in_set empty_iff empty_set nat.distinct(1) option.inject)
    moreover from indexOf_substrings[OF Some]
    have "substring str 0 (Suc j) = takeWhile (\<lambda>c. c \<noteq> colon) str"
      and "substringFrom str (Suc j + 1) = tl (dropWhile (\<lambda>c. c \<noteq> colon) str)"
      unfolding Suc by simp_all
    ultimately show ?thesis using Some Suc in_set by (simp add: leafNode_def)
  qed
qed

lemma internalNode_eq:
  "internalNode kids r =
     (if colon \<in> set r
      then Node kids (Some (orInternal (trim (takeWhile (\<lambda>c. c \<noteq> colon) r))))
             (or0 (parseFloat (tl (dropWhile (\<lambda>c. c \<noteq> colon) r))))
      else Node kids (Some (orInternal (trim r))) zero)"
proof (cases "indexOf r colon")
  case None
  then have "colon \<notin> set r" by (simp add: indexOf_None)
  with None show ?thesis by (simp add: internalNode_def)
next
  case (Some k)
  then have in_set: "colon \<in> set r"
    by (metis indexOf_None option.distinct(1))
  show ?thesis
  proof (cases k)
    case 0
    with Some have "r \<noteq> []" "hd r = colon" by (simp_all add: indexOf_0)
    then have "takeWhile (\<lambda>c. c \<noteq> colon) r = []" and "substringFrom r 1 = tl (dropWhile (\<lambda>c. c \<noteq> colon) r)"
      by (cases r; simp add: substringFrom_def)+
    with Some 0 in_set show ?thesis
      by (simp add: internalNode_def orInternal_def trim_def)
  next
    case (Suc j)
    from indexOf_substrings[OF Some]
    have "substring r 0 (Suc j) = takeWhile (\<lambda>c. c \<noteq> colon) r"
      and "substringFrom r (Suc j + 1) = tl (dropWhile (\<lambda>c. c \<noteq> colon) r)"
      unfolding Suc by simp_all
    then show ?thesis using Some Suc in_set by (simp add: internalNode_def)
  qed
qed


lemma parseNode_leaf:
  "\<not> startsWith (trim s) lparen \<Longrightarrow> parseNode s = leafNode (trim s)"
  by (simp add: parseNode.simps[of s] Let_def)

lemma parseNode_internal:
  "startsWith (trim s) lparen \<Longrightarrow> findEndParen (trim s) = Some e \<Longrightarrow>
     parseNode s = internalNode (map parseNode (childStrings (trim s) e))
                     (substringFrom (trim s) (e + 1))"
  by (simp add: parseNode.simps[of s] Let_def)

lemma parseNode_fallback:
  "startsWith (trim s) lparen \<Longrightarrow> findEndParen (trim s) = None \<Longrightarrow>
     parseNode s = Node [] None zero"
  by (simp add: parseNode.simps[of s] Let_def)

section \<open>Unbalanced input\<close>

text \<open>
  Claim C2. When the text left after removing a final semicolon and trimming starts with
  \<open>(\<close> and none of its closing parentheses brings the depth back to \<open>0\<close>, so that no
  closing parenthesis matches the first \<open>(\<close>, \<open>parseNewick\<close> returns the node
  \<open>{ children: [], name: null, length: 0 }\<close>. The model has no branch that raises, and
  \<open>parseNewick\<close> is a function of its argument alone, so two runs on one input return
  the same node; the input \<open>(A:1,B:2\<close> is such a text.
\<close>

theorem parseNewick_unbalanced:
  assumes "startsWith (trim (replaceSemicolon newick)) lparen"
    and "list_all (\<lambda>e. \<not> closesAt (trim (replaceSemicolon newick)) e)
           [0..<length (trim (replaceSemicolon newick))]"
  shows "parseNewick newick = Node [] None zero
         \<and> parseNewick (js ''(A:1,B:2'') = Node [] None zero"
proof -
  let ?t = "trim (replaceSemicolon newick)"
  have "\<forall>k. \<not> closesAt ?t k"
    using assms(2) by (auto simp: list_all_iff closesAt_def)
  then have "findEndParen ?t = None" by (simp add: findEndParen_None)
  moreover have "trim ?t = ?t" by simp
  ultimately have "parseNewick newick = Node [] None zero"
    using assms(1) by (simp add: parseNewick_def parseNode.simps[of ?t])
  moreover have "parseNewick (js ''(A:1,B:2'') = Node [] None zero"
    by code_simp
  ultimately show ?thesis by simp
qed

theorem parseNewick_unbalanced_witness:
  "startsWith (trim (replaceSemicolon (js ''((A:1,B:2) ;''))) lparen
   \<and> list_all (\<lambda>e. \<not> closesAt (trim (replaceSemicolon (js ''((A:1,B:2) ;''))) e)
        [0..<length (trim (replaceSemicolon (js ''((A:1,B:2) ;'')))]
   \<and> parseNewick (js ''((A:1,B:2) ;'') = Node [] None zero"
proof -
  have h1: "startsWith (trim (replaceSemicolon (js ''((A:1,B:2) ;''))) lparen"
    by code_simp
  have h2: "list_all (\<lambda>e. \<not> closesAt (trim (replaceSemicolon (js ''((A:1,B:2) ;''))) e)
        [0..<length (trim (replaceSemicolon (js ''((A:1,B:2) ;'')))]"
    by code_simp
  show ?thesis
    using h1 h2 parseNewick_unbalanced[OF h1 h2] by simp
qed

section \<open>Label and branch length of an internal node\<close>

text \<open>
  Claim C4, as the code has it. Let the trimmed text start with \<open>(\<close>, let \<open>e\<close> be the
  index of the matching closing parenthesis, and \<open>r\<close> the text after it. If \<open>r\<close> holds
  a colon, the node's name is the text of \<open>r\<close> before the first colon with the white
  space at both ends trimmed away, or \<open>Internal\<close> when nothing is left, and its length
  is the number \<open>parseFloat\<close> reads from the text after that colon, \<open>0\<close> when that is
  \<open>NaN\<close> or zero. If \<open>r\<close> holds no colon, the name is \<open>r\<close> trimmed, or \<open>Internal\<close> when
  nothing is left, and the length is \<open>0\<close>.
\<close>

theorem internal_name_and_length:
  assumes "startsWith (trim s) lparen" and "matchingParen (trim s) e"
  shows "(colon \<in> set (drop (Suc e) (trim s)) \<longrightarrow>
            name (parseNode s) =
              Some (if trim (takeWhile (\<lambda>c. c \<noteq> colon) (drop (Suc e) (trim s))) \<noteq> []
                    then trim (takeWhile (\<lambda>c. c \<noteq> colon) (drop (Suc e) (trim s)))
                    else js ''Internal'')
            \<and> length_node (parseNode s) =
              (if truthy (parseFloat (tl (dropWhile (\<lambda>c. c \<noteq> colon) (drop (Suc e) (trim s)))))
               then parseFloat (tl (dropWhile (\<lambda>c. c \<noteq> colon) (drop (Suc e) (trim s))))
               else zero))
         \<and> (colon \<notin> set (drop (Suc e) (trim s)) \<longrightarrow>
            name (parseNode s) =
              Some (if trim (drop (Suc e) (trim s)) \<noteq> [] then trim (drop (Suc e) (trim s))
                    else js ''Internal'')
            \<and> length_node (parseNode s) = zero)"
proof -
  from assms(2) have "findEndParen (trim s) = Some e"
    by (simp add: findEndParen_matching)
  with assms(1) have "parseNode s =
      internalNode (map parseNode (childStrings (trim s) e)) (drop (Suc e) (trim s))"
    by (simp add: parseNode_internal substringFrom_def)
  then show ?thesis
    by (simp add: internalNode_eq orInternal_def or0_def)
qed

theorem internal_name_and_length_witness:
  "startsWith (trim (js ''(A:1,B:2) X:0.5'')) lparen
   \<and> matchingParen (trim (js ''(A:1,B:2) X:0.5'')) 8
   \<and> colon \<in> set (drop (Suc 8) (trim (js ''(A:1,B:2) X:0.5'')))
   \<and> name (parseNode (js ''(A:1,B:2) X:0.5'')) = Some (js ''X'')
   \<and> length_node (parseNode (js ''(A:1,B:2) X:0.5'')) = Fin 4503599627370496 (- 53)
   \<and> startsWith (trim (js ''(A:1,B:2)'')) lparen
   \<and> matchingParen (trim (js ''(A:1,B:2)'')) 8
   \<and> colon \<notin> set (drop (Suc 8) (trim (js ''(A:1,B:2)'')))
   \<and> name (parseNode (js ''(A:1,B:2)'')) = Some (js ''Internal'')
   \<and> length_node (parseNode (js ''(A:1,B:2)'')) = zero"
proof -
  have a1: "startsWith (trim (js ''(A:1,B:2) X:0.5'')) lparen" by code_simp
  have a2: "matchingParen (trim (js ''(A:1,B:2) X:0.5'')) 8" by code_simp
  have a3: "colon \<in> set (drop (Suc 8) (trim (js ''(A:1,B:2) X:0.5'')))" by code_simp
  have a4: "(if trim (takeWhile (\<lambda>c. c \<noteq> colon) (drop (Suc 8) (trim (js ''(A:1,B:2) X:0.5'')))) \<noteq> []
             then trim (takeWhile (\<lambda>c. c \<noteq> colon) (drop (Suc 8) (trim (js ''(A:1,B:2) X:0.5''))))
             else js ''Internal'') = js ''X''" by code_simp
  have a5: "(if truthy (parseFloat (tl (dropWhile (\<lambda>c. c \<noteq> colon) (drop (Suc 8) (trim (js ''(A:1,B:2) X:0.5''))))))
             then parseFloat (tl (dropWhile (\<lambda>c. c \<noteq> colon) (drop (Suc 8) (trim (js ''(A:1,B:2) X:0.5'')))))
             else zero) = Fin 4503599627370496 (- 53)" by code_simp
  have b1: "startsWith (trim (js ''(A:1,B:2)'')) lparen" by code_simp
  have b2: "matchingParen (trim (js ''(A:1,B:2)'')) 8" by code_simp
  have b3: "colon \<notin> set (drop (Suc 8) (trim (js ''(A:1,B:2)'')))" by code_simp
  have b4: "(if trim (drop (Suc 8) (trim (js ''(A:1,B:2)''))) \<noteq> []
             then trim (drop (Suc 8) (trim (js ''(A:1,B:2)''))) else js ''Internal'')
            = js ''Internal''" by code_simp
  from internal_name_and_length[OF a1 a2] a3 a4 a5
  have 1: "name (parseNode (js ''(A:1,B:2) X:0.5'')) = Some (js ''X'')
           \<and> length_node (parseNode (js ''(A:1,B:2) X:0.5'')) = Fin 4503599627370496 (- 53)"
    by simp
  from internal_name_and_length[OF b1 b2] b3 b4
  have 2: "name (parseNode (js ''(A:1,B:2)'')) = Some (js ''Internal'')
           \<and> length_node (parseNode (js ''(A:1,B:2)'')) = zero"
    by simp
  from a1 a2 a3 b1 b2 b3 1 2 show ?thesis by simp
qed


text \<open>
  The name is trimmed: in \<open>(A,B) X:1\<close> the text before the first colon of the remainder
  is \<open>X\<close> with a space in front, and the node is named \<open>X\<close>.
\<close>

theorem internal_name_counterexample:
  "startsWith (js ''(A,B) X:1'') lparen
   \<and> matchingParen (js ''(A,B) X:1'') 4
   \<and> takeWhile (\<lambda>c. c \<noteq> colon) (drop (Suc 4) (js ''(A,B) X:1'')) = js '' X''
   \<and> name (parseNode (js ''(A,B) X:1'')) = Some (js ''X'')
   \<and> js ''X'' \<noteq> js '' X''"
  by code_simp


section \<open>Leaves\<close>

text \<open>
  Claim C5, as the code has it. Let the trimmed text not start with \<open>(\<close>. If it holds a
  colon that is not its first code unit, the leaf's name is the text before the first
  colon with the white space at both ends trimmed away, and its length is the number
  \<open>parseFloat\<close> reads from the text after that colon, \<open>0\<close> when that is \<open>NaN\<close> or zero.
  If it holds no colon, the name is the whole trimmed text and the length is \<open>0\<close>.
\<close>

theorem leaf_name_and_length:
  assumes "\<not> startsWith (trim s) lparen"
  shows "(colon \<in> set (trim s) \<and> hd (trim s) \<noteq> colon \<longrightarrow>
            parseNode s =
              Node [] (Some (trim (takeWhile (\<lambda>c. c \<noteq> colon) (trim s))))
                (if truthy (parseFloat (tl (dropWhile (\<lambda>c. c \<noteq> colon) (trim s))))
                 then parseFloat (tl (dropWhile (\<lambda>c. c \<noteq> colon) (trim s)))
                 else zero))
         \<and> (colon \<notin> set (trim s) \<longrightarrow> parseNode s = Node [] (Some (trim s)) zero)"
  using assms by (simp add: parseNode_leaf leafNode_eq or0_def)

theorem leaf_name_and_length_witness:
  "\<not> startsWith (trim (js ''A :0.5'')) lparen
   \<and> colon \<in> set (trim (js ''A :0.5'')) \<and> hd (trim (js ''A :0.5'')) \<noteq> colon
   \<and> parseNode (js ''A :0.5'') = Node [] (Some (js ''A'')) (Fin 4503599627370496 (- 53))
   \<and> \<not> startsWith (trim (js ''B'')) lparen \<and> colon \<notin> set (trim (js ''B''))
   \<and> parseNode (js ''B'') = Node [] (Some (js ''B'')) zero"
proof -
  have a: "\<not> startsWith (trim (js ''A :0.5'')) lparen" by code_simp
  have b: "\<not> startsWith (trim (js ''B'')) lparen" by code_simp
  have c: "colon \<in> set (trim (js ''A :0.5'')) \<and> hd (trim (js ''A :0.5'')) \<noteq> colon"
    by code_simp
  have d: "colon \<notin> set (trim (js ''B''))" by code_simp
  have e: "Node [] (Some (trim (takeWhile (\<lambda>c. c \<noteq> colon) (trim (js ''A :0.5'')))))
                (if truthy (parseFloat (tl (dropWhile (\<lambda>c. c \<noteq> colon) (trim (js ''A :0.5'')))))
                 then parseFloat (tl (dropWhile (\<lambda>c. c \<noteq> colon) (trim (js ''A :0.5''))))
                 else zero) = Node [] (Some (js ''A'')) (Fin 4503599627370496 (- 53))"
    by code_simp
  have f: "trim (js ''B'') = js ''B''" by code_simp
  from leaf_name_and_length[OF a] c e
  have 1: "parseNode (js ''A :0.5'') = Node [] (Some (js ''A'')) (Fin 4503599627370496 (- 53))"
    by simp
  from leaf_name_and_length[OF b] d f
  have 2: "parseNode (js ''B'') = Node [] (Some (js ''B'')) zero"
    by simp
  from a b c d 1 2 show ?thesis by simp
qed


text \<open>
  The name is not the text before the colon verbatim: in \<open>A :1\<close> that text ends with a
  space, and the leaf is named \<open>A\<close>.
\<close>

theorem leaf_name_verbatim_counterexample:
  "\<not> startsWith (js ''A :1'') lparen
   \<and> takeWhile (\<lambda>c. c \<noteq> colon) (js ''A :1'') = js ''A ''
   \<and> name (parseNode (js ''A :1'')) = Some (js ''A'')
   \<and> js ''A'' \<noteq> js ''A ''"
  by code_simp


text \<open>
  A text whose first code unit is the colon takes the branch written for a text with no
  colon (the test is \<open>colonIdx > 0\<close>): the whole text becomes the name and the length
  is \<open>0\<close>.
\<close>

lemma leaf_colon_first:
  "parseNode (js '':0.5'') = Node [] (Some (js '':0.5'')) zero"
  by code_simp



section \<open>The trailing semicolon\<close>

text \<open>
  Claim C8. Removing the semicolon appended to any text gives the text back, so exactly
  one semicolon is taken off and a text that ends with two keeps one (\<open>A;;\<close> is the leaf
  named \<open>A;\<close>); and for a text that does not end with a semicolon, \<open>parseNewick\<close>
  returns the same tree with the semicolon appended as without it.
\<close>

theorem trailing_semicolon:
  "replaceSemicolon (s @ [semicolon]) = s
   \<and> (s = [] \<or> last s \<noteq> semicolon \<longrightarrow> parseNewick (s @ [semicolon]) = parseNewick s)
   \<and> parseNewick (js ''A;;'') = Node [] (Some (js ''A;'')) zero"
proof -
  have 1: "replaceSemicolon (s @ [semicolon]) = s"
    by (simp add: replaceSemicolon_def)
  have 2: "s = [] \<or> last s \<noteq> semicolon \<Longrightarrow> replaceSemicolon s = s"
    by (auto simp: replaceSemicolon_def)
  have 3: "parseNewick (js ''A;;'') = Node [] (Some (js ''A;'')) zero"
    by code_simp
  from 1 2 3 show ?thesis by (auto simp: parseNewick_def)
qed

theorem trailing_semicolon_witness:
  "(js ''(A:1,B:2)'' = [] \<or> last (js ''(A:1,B:2)'') \<noteq> semicolon)
   \<and> parseNewick (js ''(A:1,B:2)'' @ [semicolon]) = parseNewick (js ''(A:1,B:2)'')
   \<and> replaceSemicolon (js ''(A:1,B:2);'' @ [semicolon]) = js ''(A:1,B:2);''"
proof -
  have h: "js ''(A:1,B:2)'' = [] \<or> last (js ''(A:1,B:2)'') \<noteq> semicolon"
    by code_simp
  from h trailing_semicolon[of "js ''(A:1,B:2)''"] trailing_semicolon[of "js ''(A:1,B:2);''"]
  show ?thesis by simp
qed


section \<open>Rendering\<close>

lemma foldl_append_concat:
  "foldl (\<lambda>r x. r @ f x) r0 xs = r0 @ concat (map f xs)"
  by (induction xs arbitrary: r0) auto

lemma zip_upt_nth:
  "zip [0..<length xs] xs = map (\<lambda>i. (i, xs ! i)) [0..<length xs]"
  by (rule nth_equalityI) simp_all

lemma renderTreeAscii_unfold:
  "renderTreeAscii tree prefix isLast =
     prefix @ connector isLast @ nameOrDefault (name tree)
     @ lengthText (length_node tree) @ [newline]
     @ concat (map (\<lambda>i. renderTreeAscii (children tree ! i) (extendPrefix prefix isLast)
                           (Suc i = length (children tree)))
                 [0..<length (children tree)])"
proof -
  have eq: "\<And>i. (int i = int (length (children tree)) - 1) = (Suc i = length (children tree))"
    by auto
  show ?thesis
    by (subst renderTreeAscii.simps)
       (simp add: Let_def foldl_append_concat zip_upt_nth comp_def eq)
qed

lemma isDigit_digitChar: "0 \<le> d \<Longrightarrow> d < 10 \<Longrightarrow> isDigit (digitChar d)"
proof -
  assume "0 \<le> d" "d < 10"
  then have "d = 0 \<or> d = 1 \<or> d = 2 \<or> d = 3 \<or> d = 4 \<or> d = 5 \<or> d = 6 \<or> d = 7
      \<or> d = 8 \<or> d = 9" by arith
  then show ?thesis by (elim disjE) (simp_all add: isDigit_def digitChar_def)
qed

lemma digits10_digits: "0 \<le> n \<Longrightarrow> list_all isDigit (digits10 n) \<and> digits10 n \<noteq> []"
proof (induction n rule: digits10.induct)
  case (1 n)
  show ?case
  proof (cases "n < 10")
    case True
    with "1.prems" show ?thesis
      by (subst (1 2) digits10.simps) (simp add: isDigit_digitChar)
  next
    case False
    then have "0 \<le> n div 10" by simp
    with "1.IH" False have "list_all isDigit (digits10 (n div 10))" by simp
    moreover have "isDigit (digitChar (n mod 10))"
      by (rule isDigit_digitChar) simp_all
    ultimately show ?thesis using False
      by (subst (1 2) digits10.simps) simp
  qed
qed

lemma fixed4_point:
  assumes "list_all isDigit padded" and "5 \<le> length padded"
    and that: "s = [] \<or> s = [0x2D]"
  shows "fixed4 (s @ take (length padded - 4) padded @ [0x2E] @ drop (length padded - 4) padded)"
proof -
  let ?a = "take (length padded - 4) padded"
  let ?b = "drop (length padded - 4) padded"
  let ?u = "?a @ [0x2E] @ ?b"
  have la: "length ?a = length padded - 4" and lb: "length ?b = 4"
    using assms(2) by simp_all
  have da: "list_all isDigit ?a" and db: "list_all isDigit ?b"
    using assms(1) by (auto simp: list_all_iff dest: in_set_takeD in_set_dropD)
  have a_ne: "?a \<noteq> []" using assms(2) by auto
  then have "isDigit (hd ?a)" using da by (cases ?a) auto
  then have "hd ?a \<noteq> 0x2D" by (auto simp: isDigit_def)
  then have nostart: "\<not> startsWith ?u 0x2D"
    using a_ne by (cases ?a) (auto simp: startsWith_def)
  have lu: "length ?u = length padded + 1" using assms(2) by simp
  have u: "(if startsWith (s @ ?u) 0x2D then tl (s @ ?u) else s @ ?u) = ?u"
    using that nostart by (auto simp: startsWith_def)
  have 1: "?u ! (length ?u - 5) = 0x2E"
    using assms(2) by (simp add: nth_append)
  have 2: "take (length ?u - 5) ?u = ?a"
    using assms(2) by simp
  have 3: "drop (length ?u - 4) ?u = ?b"
    using assms(2) by simp
  show ?thesis
    unfolding fixed4_def Let_def u
    using 1 2 3 da db lu assms(2) by simp
qed

lemma toFixed4_fixed4:
  assumes "\<not> (0 \<le> e \<and> 10 ^ 21 \<le> \<bar>m\<bar> * 2 ^ nat e)"
  shows "fixed4 (toFixed4 (Fin m e))"
proof -
  define n where "n = (if 0 \<le> e then \<bar>m\<bar> * 2 ^ nat e * 10000
                        else (\<bar>m\<bar> * 20000 + 2 ^ nat (- e)) div (2 * 2 ^ nat (- e)))"
  define padded where "padded = replicate (5 - length (digits10 n)) (0x30 :: jschar) @ digits10 n"
  have "0 \<le> n" by (simp add: n_def pos_imp_zdiv_nonneg_iff)
  then have d: "list_all isDigit (digits10 n)" by (simp add: digits10_digits)
  have "isDigit 0x30" by (simp add: isDigit_def)
  with d have 1: "list_all isDigit padded" by (auto simp: padded_def list_all_iff)
  have 2: "5 \<le> length padded" by (simp add: padded_def)
  have eq: "toFixed4 (Fin m e) =
      (if m < 0 then js ''-'' else []) @ take (length padded - 4) padded @ [0x2E]
        @ drop (length padded - 4) padded"
    unfolding toFixed4_def Let_def n_def padded_def
    by (simp only: jsnum.case assms if_False)
  have s: "(if m < 0 then js ''-'' else []) = [] \<or> (if m < 0 then js ''-'' else []) = [0x2D]"
    by (simp add: js_def)
  show ?thesis unfolding eq by (rule fixed4_point[OF 1 2 s])
qed


text \<open>
  Claim C6, as the code has it. The rendering of a node is one line, made of the prefix,
  the connector (\<open>0x2514 0x2500 0x2500\<close> and a space for a last sibling,
  \<open>0x251C 0x2500 0x2500\<close> and a space otherwise), the name (\<open>Internal Node\<close> when the
  name is \<open>null\<close> or empty) and, exactly when the length is truthy (not zero and not
  \<open>NaN\<close>), the text of \<open>toFixed(4)\<close> in parentheses after a space; then come the
  renderings of the children in order, each with the prefix extended by four spaces
  when this node is a last sibling and by \<open>0x2502\<close> and three spaces otherwise, the last
  child alone rendered as a last sibling. \<open>toFixed(4)\<close> prints four decimal places
  when the length is finite and below \<open>10 ^ 21\<close> in magnitude (for \<open>e < 0\<close> a Number
  \<open>Fin m e\<close> is below \<open>2 ^ 53\<close>).
\<close>

theorem render_node:
  "renderTreeAscii tree prefix isLast =
     prefix
     @ (if isLast then [0x2514, 0x2500, 0x2500, 0x20] else [0x251C, 0x2500, 0x2500, 0x20])
     @ (case name tree of
          None \<Rightarrow> js ''Internal Node''
        | Some n \<Rightarrow> if n = [] then js ''Internal Node'' else n)
     @ (if truthy (length_node tree) then js '' ('' @ toFixed4 (length_node tree) @ js '')''
        else [])
     @ [newline]
     @ concat (map (\<lambda>i. renderTreeAscii (children tree ! i)
                           (prefix @ (if isLast then js ''    '' else [0x2502, 0x20, 0x20, 0x20]))
                           (Suc i = length (children tree)))
                 [0..<length (children tree)])
   \<and> (\<not> (0 \<le> e \<and> 10 ^ 21 \<le> \<bar>m\<bar> * 2 ^ nat e) \<longrightarrow> fixed4 (toFixed4 (Fin m e)))"
proof -
  have "nameOrDefault (name tree) =
      (case name tree of
          None \<Rightarrow> js ''Internal Node''
        | Some n \<Rightarrow> if n = [] then js ''Internal Node'' else n)"
    by (simp add: nameOrDefault_def split: option.splits)
  then show ?thesis
    using renderTreeAscii_unfold[of tree prefix isLast] toFixed4_fixed4[of e m]
    by (simp add: connector_def lengthText_def extendPrefix_def)
qed

theorem render_node_witness:
  "\<not> (0 \<le> (- 56 :: int) \<and> (10 :: int) ^ 21 \<le> \<bar>7205759403792794\<bar> * 2 ^ nat (- 56))
   \<and> fixed4 (toFixed4 (Fin 7205759403792794 (- 56)))
   \<and> renderTreeAscii (Node [] (Some (js ''A'')) (Fin 7205759403792794 (- 56))) (js ''    '') False
       = js ''    '' @ [0x251C, 0x2500, 0x2500, 0x20] @ js ''A (0.1000)'' @ [newline]"
proof -
  have h: "\<not> (0 \<le> (- 56 :: int) \<and> (10 :: int) ^ 21 \<le> \<bar>7205759403792794\<bar> * 2 ^ nat (- 56))"
    by simp
  have t: "toFixed4 (Fin 7205759403792794 (- 56)) = js ''0.1000''"
    by code_simp
  from h t
    render_node[of "Node [] (Some (js ''A'')) (Fin 7205759403792794 (- 56))" "js ''    ''" False
      "- 56" 7205759403792794]
  show ?thesis by (simp add: js_def)
qed


text \<open>
  The length \<open>1e21\<close> is not zero, and its annotation is \<open>(1e+21)\<close>, which is not a text
  with four decimal places: from \<open>10 ^ 21\<close> on, \<open>toFixed\<close> prints as \<open>toString\<close> does.
\<close>

theorem render_huge_length_counterexample:
  "length_node (parseNewick (js ''A:1e21'')) = Fin 7629394531250000 17
   \<and> truthy (Fin 7629394531250000 17)
   \<and> renderTreeAscii (parseNewick (js ''A:1e21'')) [] True
       = [0x2514, 0x2500, 0x2500, 0x20] @ js ''A (1e+21)'' @ [newline]
   \<and> \<not> fixed4 (js ''1e+21'')"
  by code_simp


text \<open>
  Claim C7. The rendering of the tree parsed from \<open>((A:0.1,B:0.2):0.0);\<close>: the top
  node's line has the connector of a last sibling; under it, through the node of the
  inner parentheses, the line of \<open>A\<close> has the other connector and \<open>(0.1000)\<close>, and the
  line of \<open>B\<close> the connector of a last sibling and \<open>(0.2000)\<close>.
\<close>

theorem render_two_leaves:
  "renderTreeAscii (parseNewick (js ''((A:0.1,B:0.2):0.0);'')) [] True =
     [0x2514, 0x2500, 0x2500, 0x20] @ js ''Internal'' @ [newline]
     @ js ''    '' @ [0x2514, 0x2500, 0x2500, 0x20] @ js ''Internal'' @ [newline]
     @ js ''        '' @ [0x251C, 0x2500, 0x2500, 0x20] @ js ''A (0.1000)'' @ [newline]
     @ js ''        '' @ [0x2514, 0x2500, 0x2500, 0x20] @ js ''B (0.2000)'' @ [newline]"
  by code_simp

section \<open>Termination\<close>

lemma recursiveCalls_iff:
  "c \<in> set (recursiveCalls s) \<longleftrightarrow>
     startsWith (trim s) lparen
     \<and> (\<exists>e. findEndParen (trim s) = Some e \<and> c \<in> set (childStrings (trim s) e))"
proof (cases "startsWith (trim s) lparen")
  case False
  then show ?thesis by (simp add: recursiveCalls_def)
next
  case True
  then show ?thesis
    by (cases "findEndParen (trim s)") (simp_all add: recursiveCalls_def)
qed

lemma parseNode_rel_iff:
  "parseNode_rel c s \<longleftrightarrow> c \<in> set (recursiveCalls s)"
  unfolding recursiveCalls_iff parseNode_rel.simps by auto

lemma recursiveCalls_shorter:
  "c \<in> set (recursiveCalls s) \<Longrightarrow> length c < length s"
proof -
  assume "c \<in> set (recursiveCalls s)"
  then obtain e where "startsWith (trim s) lparen" "findEndParen (trim s) = Some e"
    "c \<in> set (childStrings (trim s) e)"
    unfolding recursiveCalls_iff by blast
  then have "length c < length (trim s)" by (rule childStrings_shorter)
  then show ?thesis using length_trim_le[of s] by simp
qed

lemma parseNode_dom_all: "parseNode_dom s"
proof (induction s rule: measure_induct_rule[of length])
  case (less s)
  show ?case
  proof (rule accpI)
    fix c assume "parseNode_rel c s"
    then have "length c < length s"
      by (simp add: parseNode_rel_iff recursiveCalls_shorter)
    then show "parseNode_dom c" by (rule less.IH)
  qed
qed

lemma children_parseNode:
  "children (parseNode s) = map parseNode (recursiveCalls s)"
proof (cases "startsWith (trim s) lparen")
  case False
  then show ?thesis by (simp add: parseNode_leaf leafNode_eq recursiveCalls_def)
next
  case True
  then show ?thesis
    by (cases "findEndParen (trim s)")
       (simp_all add: parseNode_fallback parseNode_internal internalNode_eq recursiveCalls_def)
qed

text \<open>
  Claim C9. \<open>parseNode_rel c s\<close> says that the evaluation of \<open>parseNode s\<close> calls
  \<open>parseNode c\<close>, and \<open>parseNode_dom s\<close> that the recursion started at \<open>s\<close> is well
  founded. Every text is in the domain; the calls made for \<open>s\<close> are those on the child
  texts found between the first \<open>(\<close> and its matching \<open>)\<close>, each of them is strictly
  shorter than \<open>s\<close>, and their results are the children of the node returned.
  \<open>parseNewick\<close> calls \<open>parseNode\<close> once, so it returns too.
\<close>

theorem parseNode_terminates:
  "parseNode_dom s
   \<and> (parseNode_rel c s \<longleftrightarrow> c \<in> set (recursiveCalls s))
   \<and> list_all (\<lambda>c. length c < length s) (recursiveCalls s)
   \<and> children (parseNode s) = map parseNode (recursiveCalls s)"
  using parseNode_dom_all[of s] parseNode_rel_iff[of c s] children_parseNode[of s]
  by (simp add: list_all_iff recursiveCalls_shorter)

section \<open>No length is \<open>NaN\<close>\<close>

text \<open>
  The texts on which \<open>parseNode\<close> is evaluated when it is called on \<open>s\<close>: \<open>s\<close>
  itself, then those of its calls, in order.
\<close>

function nodeTexts :: "jsstring \<Rightarrow> jsstring list" where
  "nodeTexts s = s # concat (map nodeTexts (recursiveCalls s))"
  by pat_completeness auto
termination
  by (relation "measure length") (auto simp: recursiveCalls_shorter)

declare nodeTexts.simps [simp del]

lemma allNodes_leafNode:
  "allNodes (\<lambda>n. length_node n \<noteq> NaN \<and> (truthy (length_node n) \<or> length_node n = zero))
     (leafNode str)"
  by (auto simp: leafNode_eq or0_def zero_def)

lemma allNodes_internalNode:
  assumes "list_all (allNodes (\<lambda>n. length_node n \<noteq> NaN \<and> (truthy (length_node n) \<or> length_node n = zero))) kids"
  shows "allNodes (\<lambda>n. length_node n \<noteq> NaN \<and> (truthy (length_node n) \<or> length_node n = zero))
     (internalNode kids r)"
  using assms by (auto simp: internalNode_eq or0_def zero_def)

lemma parseNode_no_NaN:
  "allNodes (\<lambda>n. length_node n \<noteq> NaN \<and> (truthy (length_node n) \<or> length_node n = zero))
     (parseNode s)"
proof (induction s rule: parseNode.induct)
  case (1 s)
  show ?case
  proof (cases "startsWith (trim s) lparen")
    case False
    then show ?thesis by (simp add: parseNode_leaf allNodes_leafNode)
  next
    case True
    show ?thesis
    proof (cases "findEndParen (trim s)")
      case None
      with True show ?thesis by (simp add: parseNode_fallback zero_def)
    next
      case (Some e)
      from "1.IH"[OF refl True Some]
      have "list_all (allNodes (\<lambda>n. length_node n \<noteq> NaN \<and> (truthy (length_node n) \<or> length_node n = zero)))
              (map parseNode (childStrings (trim s) e))"
        by (simp add: list_all_iff)
      with True Some show ?thesis
        by (simp add: parseNode_internal allNodes_internalNode)
    qed
  qed
qed

lemma findEndParen_find: "findEndParen t = find (closesAt t) [0..<length t]"
proof (cases "findEndParen t")
  case None
  then have "\<forall>k. \<not> closesAt t k" by (simp add: findEndParen_None)
  then have "find (closesAt t) [0..<length t] = None" by (simp add: find_None_iff)
  with None show ?thesis by simp
next
  case (Some e)
  then have m: "closesAt t e" "\<forall>k<e. \<not> closesAt t k"
    by (auto simp: findEndParen_matching matchingParen_def list_all_iff)
  then have e: "e < length t" by (simp add: closesAt_def)
  have "find (closesAt t) [0..<length t] = Some e"
    unfolding find_Some_iff
    using m e by (intro exI[of _ e]) auto
  with Some show ?thesis by simp
qed

lemma nodes_unfold: "nodes t = t # concat (map nodes (children t))"
  by (cases t) simp

lemma nodes_parseNode: "nodes (parseNode s) = map parseNode (nodeTexts s)"
proof (induction s rule: nodeTexts.induct)
  case (1 s)
  have "concat (map nodes (map parseNode (recursiveCalls s)))
        = concat (map (\<lambda>c. map parseNode (nodeTexts c)) (recursiveCalls s))"
    using "1.IH" by (simp cong: map_cong)
  then show ?case
    by (subst nodes_unfold, subst nodeTexts.simps)
       (simp add: children_parseNode map_concat comp_def)
qed

lemma length_parseNode:
  "length_node (parseNode c) =
     (case branchLengthText c of
        None \<Rightarrow> zero
      | Some txt \<Rightarrow>
          if parseFloat txt = NaN then zero
          else if hd (trim c) = colon then zero
          else if truthy (parseFloat txt) then parseFloat txt else zero)"
proof (cases "startsWith (trim c) lparen")
  case False
  then show ?thesis
    by (simp add: parseNode_leaf leafNode_eq branchLengthText_def or0_def Let_def)
next
  case True
  then have hd: "hd (trim c) \<noteq> colon"
    by (cases "trim c") (simp_all add: startsWith_def)
  show ?thesis
  proof (cases "findEndParen (trim c)")
    case None
    with True show ?thesis
      using findEndParen_find[of "trim c"]
      by (simp add: parseNode_fallback branchLengthText_def Let_def)
  next
    case (Some e)
    with True hd show ?thesis
      using findEndParen_find[of "trim c"]
      by (simp add: parseNode_internal internalNode_eq branchLengthText_def or0_def Let_def
          substringFrom_def)
  qed
qed

text \<open>
  Claim C10. In the tree \<open>parseNewick\<close> returns for any text, the length of every node
  is a number other than \<open>NaN\<close>. The nodes of the tree are the results of \<open>parseNode\<close> on
  the texts it is called on, and the length of the node for a text \<open>c\<close> is \<open>0\<close> when
  \<open>c\<close> holds no branch-length text, and \<open>0\<close> when \<open>parseFloat\<close> reads \<open>NaN\<close> from that
  text. Otherwise it is the number read, put to \<open>0\<close> when it is zero and, for a leaf
  whose text starts with the colon, in every case. In \<open>(A:x,B:,C:2,:5)y:z;\<close> the root
  \<open>y\<close> and the leaves \<open>A\<close>, \<open>B\<close> and \<open>:5\<close> get \<open>0\<close>, and \<open>C\<close> gets \<open>2\<close>.
\<close>

theorem parseNewick_no_NaN:
  "allNodes (\<lambda>n. length_node n \<noteq> NaN \<and> (truthy (length_node n) \<or> length_node n = zero))
     (parseNewick newick)
   \<and> nodes (parseNewick newick) = map parseNode (nodeTexts (trim (replaceSemicolon newick)))
   \<and> length_node (parseNode c) =
       (case branchLengthText c of
          None \<Rightarrow> zero
        | Some txt \<Rightarrow>
            if parseFloat txt = NaN then zero
            else if hd (trim c) = colon then zero
            else if truthy (parseFloat txt) then parseFloat txt else zero)
   \<and> map length_node (nodes (parseNewick (js ''(A:x,B:,C:2,:5)y:z;'')))
       = [zero, zero, zero, Fin 4503599627370496 (- 51), zero]"
proof -
  have "map length_node (nodes (parseNewick (js ''(A:x,B:,C:2,:5)y:z;'')))
       = [zero, zero, zero, Fin 4503599627370496 (- 51), zero]"
    by code_simp
  then show ?thesis
    using length_parseNode[of c]
    by (simp add: parseNewick_def parseNode_no_NaN nodes_parseNode)
qed

section \<open>The children of an internal node\<close>

lemma topLevelPieces_nonempty: "topLevelPieces d cs \<noteq> []"
  by (induction cs arbitrary: d) (auto split: list.splits)

lemma joinWith_Cons:
  "ps \<noteq> [] \<Longrightarrow> joinWith c ((x # p) # tl ps') = x # joinWith c (p # tl ps')"
  by (cases "tl ps'") auto

lemma joinWith_topLevelPieces: "joinWith comma (topLevelPieces d cs) = cs"
proof (induction cs arbitrary: d)
  case Nil
  then show ?case by simp
next
  case (Cons c cs)
  show ?case
  proof (cases "c = comma \<and> d = 0")
    case True
    obtain q qs where q: "topLevelPieces d cs = q # qs"
      using topLevelPieces_nonempty[of d cs] by (cases "topLevelPieces d cs") auto
    with True Cons.IH[of d] show ?thesis by simp
  next
    case False
    obtain q qs where q: "topLevelPieces (d + parenStep c) cs = q # qs"
      using topLevelPieces_nonempty[of "d + parenStep c" cs]
      by (cases "topLevelPieces (d + parenStep c) cs") auto
    have "joinWith comma ((c # q) # qs) = c # joinWith comma (q # qs)"
      by (cases qs) auto
    with False q Cons.IH[of "d + parenStep c"] show ?thesis by auto
  qed
qed

lemma pushChild_eq:
  "pushChild acc cur = acc @ filter (\<lambda>p. p \<noteq> []) (map trim [cur])"
  by (simp add: pushChild_def)

lemma splitChildrenFrom_pieces:
  "splitChildrenFrom cs d cur acc =
     acc @ filter (\<lambda>p. p \<noteq> [])
             (map trim ((cur @ hd (topLevelPieces d cs)) # tl (topLevelPieces d cs)))"
proof (induction cs d cur acc rule: splitChildrenFrom.induct)
  case (1 depth current children)
  then show ?case by (simp add: pushChild_def)
next
  case (2 char cs depth current children)
  show ?case
  proof (cases "char = comma \<and> depth = 0")
    case True
    obtain q qs where q: "topLevelPieces depth cs = q # qs"
      using topLevelPieces_nonempty[of depth cs] by (cases "topLevelPieces depth cs") auto
    from True have "splitChildrenFrom (char # cs) depth current children =
        splitChildrenFrom cs depth [] (pushChild children current)" by simp
    also have "\<dots> = pushChild children current @ filter (\<lambda>p. p \<noteq> []) (map trim (q # qs))"
      using "2.IH"(3) True q by simp
    finally show ?thesis using True q by (simp add: pushChild_def)
  next
    case False
    obtain q qs where q: "topLevelPieces (depth + parenStep char) cs = q # qs"
      using topLevelPieces_nonempty[of "depth + parenStep char" cs]
      by (cases "topLevelPieces (depth + parenStep char) cs") auto
    have "splitChildrenFrom (char # cs) depth current children =
        splitChildrenFrom cs (depth + parenStep char) (current @ [char]) children"
      using False by (auto simp: parenStep_def)
    also have "\<dots> = children @ filter (\<lambda>p. p \<noteq> [])
             (map trim (((current @ [char]) @ q) # qs))"
    proof (cases "char = lparen")
      case True
      then show ?thesis using "2.IH"(1) q by (simp add: parenStep_def)
    next
      case nl: False
      show ?thesis
      proof (cases "char = rparen")
        case True
        then show ?thesis using "2.IH"(2) nl q by (simp add: parenStep_def)
      next
        case False
        then show ?thesis using "2.IH"(4) nl \<open>\<not> (char = comma \<and> depth = 0)\<close> q
          by (simp add: parenStep_def)
      qed
    qed
    finally have lhs: "splitChildrenFrom (char # cs) depth current children =
        children @ filter (\<lambda>p. p \<noteq> []) (map trim (((current @ [char]) @ q) # qs))" .
    have "topLevelPieces depth (char # cs) = (char # q) # qs"
      using False q by auto
    with lhs show ?thesis by simp
  qed
qed

lemma splitChildren_pieces:
  "splitChildren t = filter (\<lambda>p. p \<noteq> []) (map trim (topLevelPieces 0 t))"
proof -
  obtain q qs where q: "topLevelPieces 0 t = q # qs"
    using topLevelPieces_nonempty[of 0 t] by (cases "topLevelPieces 0 t") auto
  show ?thesis
    by (simp add: splitChildren_def splitChildrenFrom_pieces q)
qed


lemma noTop_Cons:
  "list_all (\<lambda>i. (c # p) ! i \<noteq> comma \<or> d + depthOf (take i (c # p)) \<noteq> 0) [0..<length (c # p)]
   \<longleftrightarrow> (c \<noteq> comma \<or> d \<noteq> 0)
       \<and> list_all (\<lambda>i. p ! i \<noteq> comma \<or> d + parenStep c + depthOf (take i p) \<noteq> 0) [0..<length p]"
proof -
  have "(\<forall>i<Suc (length p). (c # p) ! i \<noteq> comma \<or> d + depthOf (take i (c # p)) \<noteq> 0)
     \<longleftrightarrow> ((c \<noteq> comma \<or> d \<noteq> 0)
       \<and> (\<forall>i<length p. p ! i \<noteq> comma \<or> d + parenStep c + depthOf (take i p) \<noteq> 0))"
    (is "?L \<longleftrightarrow> ?R")
  proof
    assume L: ?L
    from L[rule_format, of 0] have "c \<noteq> comma \<or> d \<noteq> 0" by simp
    moreover have "\<forall>i<length p. p ! i \<noteq> comma \<or> d + parenStep c + depthOf (take i p) \<noteq> 0"
    proof (intro allI impI)
      fix i assume "i < length p"
      with L[rule_format, of "Suc i"] show "p ! i \<noteq> comma \<or> d + parenStep c + depthOf (take i p) \<noteq> 0"
        by (simp add: parenStep_def add.assoc)
    qed
    ultimately show ?R by simp
  next
    assume R: ?R
    show ?L
    proof (intro allI impI)
      fix i assume "i < Suc (length p)"
      with R show "(c # p) ! i \<noteq> comma \<or> d + depthOf (take i (c # p)) \<noteq> 0"
        by (cases i) (auto simp: parenStep_def add.assoc)
    qed
  qed
  moreover have conv: "\<And>P n. list_all P [0..<n] \<longleftrightarrow> (\<forall>i<n. P i)"
    by (auto simp: list_all_iff)
  ultimately show ?thesis unfolding conv length_Cons by blast
qed

lemma separated_topLevelPieces: "separated d (topLevelPieces d cs)"
proof (induction cs arbitrary: d)
  case Nil
  then show ?case by simp
next
  case (Cons c cs)
  show ?case
  proof (cases "c = comma \<and> d = 0")
    case True
    obtain q qs where q: "topLevelPieces 0 cs = q # qs"
      using topLevelPieces_nonempty[of 0 cs] by (cases "topLevelPieces 0 cs") auto
    with True Cons.IH[of 0] show ?thesis by simp
  next
    case False
    obtain q qs where q: "topLevelPieces (d + parenStep c) cs = q # qs"
      using topLevelPieces_nonempty[of "d + parenStep c" cs]
      by (cases "topLevelPieces (d + parenStep c) cs") auto
    have pieces: "topLevelPieces d (c # cs) = (c # q) # qs"
      using False q by auto
    from Cons.IH[of "d + parenStep c"] q have IH: "separated (d + parenStep c) (q # qs)" by simp
    have step: "d + depthOf (c # q) = d + parenStep c + depthOf q"
      by (simp add: parenStep_def)
    show ?thesis
    proof (cases qs)
      case Nil
      with IH False show ?thesis unfolding pieces
        by (simp only: separated.simps noTop_Cons) auto
    next
      case (Cons r rs)
      with IH False step show ?thesis unfolding pieces
        by (simp only: separated.simps noTop_Cons) auto
    qed
  qed
qed

lemma separated_0:
  "separated 0 ps \<Longrightarrow> list_all noTopComma ps \<and> list_all (\<lambda>p. depthOf p = 0) (butlast ps)"
proof (induction ps rule: induct_list012)
  case 1
  then show ?case by simp
next
  case (2 p)
  then show ?case by (simp add: noTopComma_def)
next
  case (3 p q ps)
  then show ?case by (simp add: noTopComma_def)
qed


lemma children_internalNode: "children (internalNode kids r) = kids"
  by (simp add: internalNode_eq)

lemma substring_inner:
  assumes "0 < e" and "e < length t"
  shows "substring t 1 e = take (e - 1) (tl t)"
  using assms by (simp add: substring_def Let_def min_def max_def drop_Suc)

text \<open>
  Claim C3, as the code has it. Let the trimmed text start with \<open>(\<close> and let \<open>e\<close> be
  the index of the closing parenthesis that matches it (the first that brings the depth
  back to \<open>0\<close>). The scan finds \<open>e\<close>. The text strictly between the two parentheses
  falls into pieces: put back together with commas they give that text, no comma
  inside a piece stands at depth \<open>0\<close>, and every piece but the last ends at depth \<open>0\<close>,
  so the cuts are the commas at depth \<open>0\<close> and no others. The children of the node are
  the results of \<open>parseNode\<close> on the pieces, trimmed, those that are empty once trimmed
  left out. The text \<open>()\<close> gives an internal node with no children.
\<close>

theorem internal_children:
  assumes "startsWith (trim s) lparen" and "matchingParen (trim s) e"
  shows "findEndParen (trim s) = Some e
    \<and> joinWith comma (topLevelPieces 0 (take (e - 1) (tl (trim s)))) = take (e - 1) (tl (trim s))
    \<and> list_all noTopComma (topLevelPieces 0 (take (e - 1) (tl (trim s))))
    \<and> list_all (\<lambda>p. depthOf p = 0) (butlast (topLevelPieces 0 (take (e - 1) (tl (trim s)))))
    \<and> children (parseNode s) =
        map parseNode
          (filter (\<lambda>p. p \<noteq> []) (map trim (topLevelPieces 0 (take (e - 1) (tl (trim s))))))
    \<and> parseNode (js ''()'') = Node [] (Some (js ''Internal'')) zero"
proof -
  let ?inner = "take (e - 1) (tl (trim s))"
  from assms(2) have f: "findEndParen (trim s) = Some e"
    by (simp add: findEndParen_matching)
  from assms(1) f have pos: "0 < e" by (rule findEndParen_pos)
  from assms(2) have lt: "e < length (trim s)"
    by (simp add: matchingParen_def closesAt_def)
  from pos lt have inner: "substring (trim s) 1 e = ?inner" by (rule substring_inner)
  have sep: "list_all noTopComma (topLevelPieces 0 ?inner)
      \<and> list_all (\<lambda>p. depthOf p = 0) (butlast (topLevelPieces 0 ?inner))"
    using separated_topLevelPieces[of 0 ?inner] by (rule separated_0)
  have kids: "children (parseNode s) =
      map parseNode (filter (\<lambda>p. p \<noteq> []) (map trim (topLevelPieces 0 ?inner)))"
    by (simp only: parseNode_internal[OF assms(1) f] children_internalNode childStrings_def
        inner splitChildren_pieces)
  have empty: "parseNode (js ''()'') = Node [] (Some (js ''Internal'')) zero"
    by code_simp
  from f sep kids empty joinWith_topLevelPieces[of 0 ?inner] show ?thesis by simp
qed

theorem internal_children_witness:
  "startsWith (trim (js ''((A:1,B:2):3, C:4 ,,(D,E))x:1'')) lparen
   \<and> matchingParen (trim (js ''((A:1,B:2):3, C:4 ,,(D,E))x:1'')) 25
   \<and> topLevelPieces 0 (take (25 - 1) (tl (trim (js ''((A:1,B:2):3, C:4 ,,(D,E))x:1''))))
       = [js ''(A:1,B:2):3'', js '' C:4 '', [], js ''(D,E)'']
   \<and> children (parseNode (js ''((A:1,B:2):3, C:4 ,,(D,E))x:1''))
       = map parseNode [js ''(A:1,B:2):3'', js ''C:4'', js ''(D,E)'']"
proof -
  have a: "startsWith (trim (js ''((A:1,B:2):3, C:4 ,,(D,E))x:1'')) lparen"
    by code_simp
  have b: "matchingParen (trim (js ''((A:1,B:2):3, C:4 ,,(D,E))x:1'')) 25"
    by code_simp
  have c: "topLevelPieces 0 (take (25 - 1) (tl (trim (js ''((A:1,B:2):3, C:4 ,,(D,E))x:1''))))
       = [js ''(A:1,B:2):3'', js '' C:4 '', [], js ''(D,E)'']"
    by code_simp
  have d: "filter (\<lambda>p. p \<noteq> []) (map trim [js ''(A:1,B:2):3'', js '' C:4 '', [], js ''(D,E)''])
       = [js ''(A:1,B:2):3'', js ''C:4'', js ''(D,E)'']"
    by code_simp
  from internal_children[OF a b] c d
  have "children (parseNode (js ''((A:1,B:2):3, C:4 ,,(D,E))x:1''))
       = map parseNode [js ''(A:1,B:2):3'', js ''C:4'', js ''(D,E)'']"
    by simp
  with a b c show ?thesis by simp
qed

text \<open>
  A piece that is empty once trimmed gives no child: the text between the parentheses
  of \<open>(A,,B)\<close> has two commas at depth \<open>0\<close> and falls into three pieces, the second
  of them empty, and the node has two children, not the three nodes \<open>parseNode\<close> gives
  on the pieces.
\<close>

theorem internal_children_counterexample:
  "startsWith (trim (js ''(A,,B)'')) lparen
   \<and> matchingParen (trim (js ''(A,,B)'')) 5
   \<and> topLevelPieces 0 (take (5 - 1) (tl (trim (js ''(A,,B)'')))) = [js ''A'', [], js ''B'']
   \<and> children (parseNode (js ''(A,,B)''))
       = [Node [] (Some (js ''A'')) zero, Node [] (Some (js ''B'')) zero]
   \<and> children (parseNode (js ''(A,,B)'')) \<noteq> map parseNode [js ''A'', [], js ''B'']"
proof -
  have t: "trim (js ''(A,,B)'') = js ''(A,,B)''" by code_simp
  have a: "startsWith (js ''(A,,B)'') lparen" by code_simp
  have b: "matchingParen (js ''(A,,B)'') 5" by code_simp
  have c: "topLevelPieces 0 (take (5 - 1) (tl (js ''(A,,B)''))) = [js ''A'', [], js ''B'']"
    by code_simp
  have d: "children (parseNode (js ''(A,,B)''))
       = [Node [] (Some (js ''A'')) zero, Node [] (Some (js ''B'')) zero]"
    by code_simp
  from a b c d show ?thesis unfolding t by simp
qed

section \<open>Reading a decimal number\<close>

text \<open>
  \<open>parseFloat\<close> on a decimal number below \<open>2 ^ 23\<close>: the Number it returns is the value
  of the text rounded on 53 bits, which is less than \<open>2 ^ - 31\<close> away from it.
\<close>

lemma bits_nonneg: "0 \<le> bits n"
  by (induction n rule: bits.induct) (subst bits.simps, simp)

lemma bits_upper: "0 < n \<Longrightarrow> n < 2 ^ nat (bits n)"
proof (induction n rule: bits.induct)
  case (1 n)
  have b: "bits n = 1 + bits (n div 2)" using "1.prems" by (subst bits.simps) simp
  show ?case
  proof (cases "0 < n div 2")
    case False
    with "1.prems" have "n = 1" by simp
    then show ?thesis by (simp add: bits.simps)
  next
    case True
    with "1.IH" "1.prems" have "n div 2 < 2 ^ nat (bits (n div 2))" by simp
    then have "n < 2 * 2 ^ nat (bits (n div 2))" by simp
    moreover have "nat (bits n) = Suc (nat (bits (n div 2)))"
      using b bits_nonneg[of "n div 2"] by simp
    ultimately show ?thesis by simp
  qed
qed

lemma bits_lower: "0 < n \<Longrightarrow> 2 ^ nat (bits n - 1) \<le> n"
proof (induction n rule: bits.induct)
  case (1 n)
  have b: "bits n = 1 + bits (n div 2)" using "1.prems" by (subst bits.simps) simp
  show ?case
  proof (cases "0 < n div 2")
    case False
    with "1.prems" have "n = 1" by simp
    then show ?thesis by (simp add: bits.simps)
  next
    case True
    with "1.IH" "1.prems" have "2 ^ nat (bits (n div 2) - 1) \<le> n div 2" by simp
    then have "2 * 2 ^ nat (bits (n div 2) - 1) \<le> n" by simp
    moreover have "0 < bits (n div 2)"
      using True by (subst bits.simps) (simp add: bits_nonneg add_pos_nonneg)
    then have "nat (bits n - 1) = Suc (nat (bits (n div 2) - 1))"
      using b by simp
    ultimately show ?thesis by simp
  qed
qed

lemma bits_le:
  assumes "0 < n" and "n < 2 ^ k"
  shows "bits n \<le> int k"
proof -
  from bits_lower[OF assms(1)] assms(2)
  have "(2::int) ^ nat (bits n - 1) < 2 ^ k" by (rule le_less_trans)
  then have "nat (bits n - 1) < k" by (simp add: power_strict_increasing_iff)
  then show ?thesis by simp
qed


lemma round_half:
  fixes N D :: int
  assumes "0 < D"
  defines "q \<equiv> N div D" and "r \<equiv> N mod D"
  defines "m \<equiv> (if 2 * r < D then q else if D < 2 * r then q + 1
                  else if even q then q else q + 1)"
  shows "\<bar>2 * (m * D - N)\<bar> \<le> D"
proof -
  have N: "N = q * D + r" by (simp add: q_def r_def)
  have r: "0 \<le> r" "r < D" using assms(1) by (simp_all add: r_def)
  show ?thesis
    unfolding m_def using r by (auto simp: N algebra_simps)
qed

lemma toNumber_close:
  assumes num: "0 \<le> num" and den: "0 < den" and small: "num < den * 2 ^ 23"
  shows "\<exists>m e. toNumber False num den = Fin m e \<and> e < 0
           \<and> \<bar>real_of_int m / 2 ^ nat (- e) - real_of_int num / real_of_int den\<bar>
               \<le> 1 / 2 ^ 31"
proof (cases "num = 0")
  case True
  then show ?thesis by (simp add: toNumber_def zero_def)
next
  case False
  with num have pos: "0 < num" by simp
  define E0 where "E0 = bits num - bits den"
  define E where "E = (if ge_pow2 num den E0 then E0 else E0 - 1)"
  define e where "e = max (E - 52) (- 1074)"
  define k where "k = nat (- e)"
  define N where "N = num * 2 ^ k"
  define q where "q = N div den"
  define r where "r = N mod den"
  define m where "m = (if 2 * r < den then q else if den < 2 * r then q + 1
                  else if even q then q else q + 1)"
  define m' where "m' = (if m = 2 ^ 53 then 2 ^ 52 else m)"
  define e' where "e' = (if m = 2 ^ 53 then e + 1 else e)"
  have "den < 2 ^ nat (bits den)" using den by (rule bits_upper)
  then have "den * 2 ^ 23 < 2 ^ nat (bits den) * 2 ^ 23" by simp
  with small have "num < 2 ^ (nat (bits den) + 23)" by (simp add: power_add)
  with pos have "bits num \<le> int (nat (bits den) + 23)" by (rule bits_le)
  then have E0: "E0 \<le> 23" using bits_nonneg[of den] by (simp add: E0_def)
  have E: "E \<le> 22"
  proof (cases "E0 = 23")
    case True
    with small have "\<not> ge_pow2 num den E0" by (simp add: ge_pow2_def)
    with True show ?thesis by (simp add: E_def)
  next
    case False
    with E0 show ?thesis by (simp add: E_def)
  qed
  then have e: "e \<le> - 30" by (simp add: e_def)
  then have k: "30 \<le> k" "e = - int k" by (simp_all add: k_def)
  have e'0: "e' < 0" "e' \<le> 971" using e by (simp_all add: e'_def)
  have res: "toNumber False num den = Fin m' e'"
    unfolding toNumber_def Let_def
    unfolding E0_def[symmetric]
    unfolding E_def[symmetric]
    unfolding e_def[symmetric]
    using False e e'0
    by (simp add: m'_def e'_def m_def q_def r_def N_def k_def)
  have rnd: "\<bar>2 * (m * den - N)\<bar> \<le> den"
    unfolding m_def q_def r_def using den by (rule round_half)
  have val: "real_of_int m' / 2 ^ nat (- e') = real_of_int m / 2 ^ k"
  proof (cases "m = 2 ^ 53")
    case True
    have "nat (- e') = k - 1" using True k by (simp add: e'_def)
    moreover have "(2::real) ^ k = 2 * 2 ^ (k - 1)"
      using k(1) by (cases k) simp_all
    ultimately show ?thesis using True by (simp add: m'_def)
  next
    case False
    then show ?thesis by (simp add: m'_def e'_def k_def)
  qed
  have "real_of_int m / 2 ^ k - real_of_int num / real_of_int den
        = real_of_int (m * den - N) / (2 ^ k * real_of_int den)"
    using den by (simp add: N_def field_simps)
  then have "\<bar>real_of_int m / 2 ^ k - real_of_int num / real_of_int den\<bar>
        = \<bar>real_of_int (m * den - N)\<bar> / (2 ^ k * real_of_int den)"
    using den by (simp add: abs_mult)
  also have "\<dots> \<le> (real_of_int den / 2) / (2 ^ k * real_of_int den)"
  proof (rule divide_right_mono)
    from rnd have "2 * \<bar>m * den - N\<bar> \<le> den" by linarith
    then have "real_of_int (2 * \<bar>m * den - N\<bar>) \<le> real_of_int den"
      by (simp only: of_int_le_iff)
    then show "\<bar>real_of_int (m * den - N)\<bar> \<le> real_of_int den / 2"
      by simp
    show "0 \<le> 2 ^ k * real_of_int den" using den by simp
  qed
  also have "\<dots> = 1 / 2 ^ (k + 1)" using den by simp
  also have "\<dots> \<le> 1 / 2 ^ 31"
  proof -
    have "(2::real) ^ 31 \<le> 2 ^ (k + 1)"
      using k(1) by (intro power_increasing) simp_all
    then show ?thesis by (simp add: frac_le)
  qed
  finally have "\<bar>real_of_int m' / 2 ^ nat (- e') - real_of_int num / real_of_int den\<bar>
        \<le> 1 / 2 ^ 31"
    by (simp only: val)
  with res e'0 show ?thesis by blast
qed


lemma isDigit_not_special:
  assumes "isDigit c"
  shows "\<not> isWhiteSpace c" and "c \<notin> {lparen, rparen, comma, colon, semicolon}"
    and "c \<noteq> 0x2D" and "c \<noteq> 0x2B" and "c \<noteq> 0x49" and "0 \<le> digitValue c"
  using assms by (auto simp: isDigit_def isWhiteSpace_def digitValue_def word_le_def)

lemma foldl_digits_nonneg:
  "0 \<le> a \<Longrightarrow> list_all isDigit ds \<Longrightarrow> 0 \<le> foldl (\<lambda>a c. 10 * a + digitValue c) a ds"
  by (induction ds arbitrary: a) (simp_all add: isDigit_not_special(6))

lemma digitsValue_nonneg: "list_all isDigit ds \<Longrightarrow> 0 \<le> digitsValue ds"
  by (simp add: digitsValue_def foldl_digits_nonneg)

lemma decimalText_cases:
  assumes "decimalText s"
  obtains (whole) "s \<noteq> []" "list_all isDigit s" "dropWhile isDigit s = []"
      "fractionDigits s = []" "takeWhile isDigit s = s"
  | (point) ip fp where "s = ip @ 0x2E # fp" "ip \<noteq> []" "fp \<noteq> []"
      "list_all isDigit ip" "list_all isDigit fp"
      "takeWhile isDigit s = ip" "dropWhile isDigit s = 0x2E # fp" "fractionDigits s = fp"
proof (cases "dropWhile isDigit s")
  case Nil
  then have all: "list_all isDigit s" by (simp add: list_all_iff)
  then have tw: "takeWhile isDigit s = s" by (simp add: list_all_iff)
  with assms have ne: "s \<noteq> []" by (auto simp: decimalText_def)
  have fd: "fractionDigits s = []" unfolding fractionDigits_def Nil by simp
  from ne all Nil fd tw show ?thesis by (rule whole)
next
  case (Cons c r)
  with assms have c: "c = 0x2E" and r: "r \<noteq> []" "list_all isDigit r"
    and ip: "takeWhile isDigit s \<noteq> []"
    by (simp_all add: decimalText_def)
  have "s = takeWhile isDigit s @ dropWhile isDigit s" by simp
  with Cons c have s: "s = takeWhile isDigit s @ 0x2E # r" by simp
  have "list_all isDigit (takeWhile isDigit s)"
    by (simp add: list_all_iff) (meson set_takeWhileD)
  moreover have "fractionDigits s = r" unfolding fractionDigits_def Cons by simp
  moreover have "dropWhile isDigit s = 0x2E # r" using Cons c by simp
  ultimately show ?thesis
    using s ip r by (intro point[of "takeWhile isDigit s" r]) simp_all
qed

lemma decimalText_plain:
  assumes "decimalText s"
  shows "s \<noteq> [] \<and> \<not> isWhiteSpace (last s) \<and> plain s"
  using assms
proof (cases rule: decimalText_cases)
  case whole
  then have "isDigit (last s)" by (simp add: list_all_iff)
  with whole show ?thesis
    by (auto simp: plain_def list_all_iff dest: isDigit_not_special(1,2))
next
  case (point ip fp)
  then have "isDigit (last s)" by (simp add: list_all_iff)
  with point show ?thesis
    by (auto simp: plain_def list_all_iff dest: isDigit_not_special(1,2))
qed

lemma parseFloat_decimalText:
  assumes "decimalText s"
  shows "parseFloat s =
     toNumber False (digitsValue (takeWhile isDigit s @ fractionDigits s))
       (10 ^ length (fractionDigits s))"
proof -
  from assms have "takeWhile isDigit s \<noteq> []" by (simp add: decimalText_def)
  then obtain c r where s: "s = c # r" and c: "isDigit c"
    by (cases s) (auto split: if_splits)
  have ws: "dropWhile isWhiteSpace s = s"
    using s isDigit_not_special(1)[OF c] by simp
  have sign: "\<not> startsWith s 0x2D" "\<not> startsWith s 0x2B"
    using s isDigit_not_special(3,4)[OF c] by (simp_all add: startsWith_def)
  have inf: "take 8 s \<noteq> js ''Infinity''"
    using s isDigit_not_special(5)[OF c] by (simp add: js_def)
  from assms show ?thesis
  proof (cases rule: decimalText_cases)
    case whole
    show ?thesis
      using ws sign inf whole(1,3,4,5)
      by (simp add: parseFloat_def Let_def exponentPart_def
          del: dropWhile_eq_Nil_conv takeWhile_eq_all_conv)
  next
    case (point ip fp)
    have "takeWhile isDigit fp = fp" "dropWhile isDigit fp = []"
      using point(5) by (simp_all add: list_all_iff)
    then show ?thesis
      using ws sign inf point(2,3,6,7,8)
      by (simp add: parseFloat_def Let_def exponentPart_def startsWith_def
          del: dropWhile_eq_Nil_conv takeWhile_eq_all_conv)
  qed
qed

lemma decimal_reads_back:
  assumes "decimalText s" and "decimalValue s < 2 ^ 23"
    and "\<bar>decimalValue s - l\<bar> \<le> 5 / 10 ^ 10"
  shows "withinTolerance l (or0 (parseFloat s))"
proof -
  define num where "num = digitsValue (takeWhile isDigit s @ fractionDigits s)"
  define den :: int where "den = 10 ^ length (fractionDigits s)"
  have den: "0 < den" by (simp add: den_def)
  have "list_all isDigit (takeWhile isDigit s @ fractionDigits s)"
  proof (cases rule: decimalText_cases[OF assms(1)])
    case 1
    then show ?thesis by (simp only: append_Nil2)
  next
    case (2 ip fp)
    then show ?thesis by (simp only: list_all_append simp_thms)
  qed
  then have num: "0 \<le> num" unfolding num_def by (rule digitsValue_nonneg)
  have v: "decimalValue s = real_of_int num / real_of_int den"
    by (simp add: decimalValue_def num_def den_def)
  with assms(2) den have "real_of_int num < real_of_int den * 2 ^ 23"
    by (simp add: pos_divide_less_eq mult.commute)
  then have "real_of_int num < real_of_int (den * 2 ^ 23)" by simp
  then have small: "num < den * 2 ^ 23" by (simp only: of_int_less_iff)
  from toNumber_close[OF num den small] obtain m e
    where t: "toNumber False num den = Fin m e" and e: "e < 0"
      and c: "\<bar>real_of_int m / 2 ^ nat (- e) - real_of_int num / real_of_int den\<bar>
               \<le> 1 / 2 ^ 31"
    by blast
  have p: "parseFloat s = Fin m e"
    using parseFloat_decimalText[OF assms(1)] t by (simp add: num_def den_def)
  from c assms(3) have "\<bar>real_of_int m / 2 ^ nat (- e) - l\<bar> \<le> 1 / 2 ^ 31 + 5 / 10 ^ 10"
    unfolding v by linarith
  then have close: "\<bar>real_of_int m / 2 ^ nat (- e) - l\<bar> \<le> 1 / 10 ^ 9" by simp
  show ?thesis
  proof (cases "m = 0")
    case True
    with close show ?thesis by (simp add: p or0_def zero_def withinTolerance_def)
  next
    case False
    with close e show ?thesis by (simp add: p or0_def withinTolerance_def)
  qed
qed

lemma lengthText_ok_reads:
  "lengthText_ok fmt l \<Longrightarrow>
     fmt l \<noteq> [] \<and> \<not> isWhiteSpace (last (fmt l)) \<and> plain (fmt l)
     \<and> withinTolerance l (or0 (parseFloat (fmt l)))"
  by (simp add: lengthText_ok_def decimalText_plain decimal_reads_back)

section \<open>The round trip\<close>

lemma plain_neutral: "plain s \<Longrightarrow> neutral s"
  by (auto simp: plain_def neutral_def list_all_iff)

lemma neutral_append [simp]: "neutral (a @ b) \<longleftrightarrow> neutral a \<and> neutral b"
  by (auto simp: neutral_def)

lemma neutral_Cons [simp]:
  "neutral (c # s) \<longleftrightarrow> c \<noteq> lparen \<and> c \<noteq> rparen \<and> c \<noteq> comma \<and> neutral s"
  by (auto simp: neutral_def)

lemma neutral_Nil [simp]: "neutral []"
  by (simp add: neutral_def)

lemma findEndParenFrom_neutral:
  "neutral s \<Longrightarrow> findEndParenFrom (s @ rest) i d = findEndParenFrom rest (i + length s) d"
  by (induction s arbitrary: i) auto

lemma prependFirst_append:
  "prependFirst a (prependFirst b ps) = prependFirst (a @ b) ps"
  by (simp add: prependFirst_def)

lemma prependFirst_Nil: "ps \<noteq> [] \<Longrightarrow> prependFirst [] ps = ps"
  by (simp add: prependFirst_def)

lemma topLevelPieces_step:
  "\<not> (c = comma \<and> d = 0) \<Longrightarrow>
     topLevelPieces d (c # cs) = prependFirst [c] (topLevelPieces (d + parenStep c) cs)"
  using topLevelPieces_nonempty[of "d + parenStep c" cs]
  by (cases "topLevelPieces (d + parenStep c) cs") (auto simp: prependFirst_def)

lemma topLevelPieces_neutral:
  "neutral s \<Longrightarrow> topLevelPieces d (s @ rest) = prependFirst s (topLevelPieces d rest)"
proof (induction s)
  case Nil
  then show ?case by (simp add: prependFirst_Nil topLevelPieces_nonempty)
next
  case (Cons c s)
  then have c: "c \<noteq> comma" "parenStep c = 0" by (simp_all add: parenStep_def)
  then have "topLevelPieces d ((c # s) @ rest) = prependFirst [c] (topLevelPieces d (s @ rest))"
    using topLevelPieces_step[of c d "s @ rest"] by simp
  with Cons show ?case by (simp add: prependFirst_append)
qed


lemma joinWith_Cons2: "ys \<noteq> [] \<Longrightarrow> joinWith c (x # ys) = x @ c # joinWith c ys"
  by (cases ys) auto

lemma findEndParenFrom_join:
  assumes "\<And>x rest i. x \<in> set xs \<Longrightarrow>
             findEndParenFrom (x @ rest) i d = findEndParenFrom rest (i + length x) d"
  shows "findEndParenFrom (joinWith comma xs @ rest) i d
         = findEndParenFrom rest (i + length (joinWith comma xs)) d"
  using assms
proof (induction xs arbitrary: i rule: induct_list012)
  case 1
  then show ?case by simp
next
  case (2 x)
  then show ?case by simp
next
  case (3 x y zs)
  have "findEndParenFrom (joinWith comma (x # y # zs) @ rest) i d
        = findEndParenFrom (x @ (comma # joinWith comma (y # zs) @ rest)) i d"
    by simp
  also have "\<dots> = findEndParenFrom (comma # joinWith comma (y # zs) @ rest) (i + length x) d"
    using "3.prems"[of x] by simp
  also have "\<dots> = findEndParenFrom (joinWith comma (y # zs) @ rest) (i + length x + 1) d"
    by simp
  also have "\<dots> = findEndParenFrom rest (i + length x + 1 + length (joinWith comma (y # zs))) d"
    using "3.IH"(2)[of "i + length x + 1"] "3.prems" by simp
  finally show ?case by (simp add: add.assoc)
qed

lemma topLevelPieces_join:
  assumes "\<And>x rest. x \<in> set xs \<Longrightarrow>
             topLevelPieces d (x @ rest) = prependFirst x (topLevelPieces d rest)"
    and "d \<noteq> 0"
  shows "topLevelPieces d (joinWith comma xs @ rest)
         = prependFirst (joinWith comma xs) (topLevelPieces d rest)"
  using assms(1)
proof (induction xs rule: induct_list012)
  case 1
  then show ?case by (simp add: prependFirst_Nil topLevelPieces_nonempty)
next
  case (2 x)
  then show ?case by simp
next
  case (3 x y zs)
  have "topLevelPieces d (joinWith comma (x # y # zs) @ rest)
        = topLevelPieces d (x @ (comma # joinWith comma (y # zs) @ rest))"
    by simp
  also have "\<dots> = prependFirst x (topLevelPieces d (comma # joinWith comma (y # zs) @ rest))"
    using "3.prems"[of x] by simp
  also have "topLevelPieces d (comma # joinWith comma (y # zs) @ rest)
        = prependFirst [comma] (topLevelPieces d (joinWith comma (y # zs) @ rest))"
    using topLevelPieces_step[of comma d] assms(2) by (simp add: parenStep_def)
  also have "topLevelPieces d (joinWith comma (y # zs) @ rest)
        = prependFirst (joinWith comma (y # zs)) (topLevelPieces d rest)"
    using "3.IH"(2) "3.prems" by simp
  finally show ?case by (simp add: prependFirst_append)
qed

lemma topLevelPieces_join_top:
  assumes "\<And>x rest. x \<in> set xs \<Longrightarrow>
             topLevelPieces 0 (x @ rest) = prependFirst x (topLevelPieces 0 rest)"
    and "xs \<noteq> []"
  shows "topLevelPieces 0 (joinWith comma xs) = xs"
  using assms
proof (induction xs rule: induct_list012)
  case 1
  then show ?case by simp
next
  case (2 x)
  from "2.prems"(1)[of x "[]"] show ?case by (simp add: prependFirst_def)
next
  case (3 x y zs)
  have "topLevelPieces 0 (joinWith comma (x # y # zs))
        = topLevelPieces 0 (x @ (comma # joinWith comma (y # zs)))"
    by simp
  also have "\<dots> = prependFirst x (topLevelPieces 0 (comma # joinWith comma (y # zs)))"
    using "3.prems"(1)[of x] by simp
  also have "topLevelPieces 0 (comma # joinWith comma (y # zs))
        = [] # topLevelPieces 0 (joinWith comma (y # zs))"
    by simp
  also have "topLevelPieces 0 (joinWith comma (y # zs)) = y # zs"
    using "3.IH"(2) "3.prems"(1) by simp
  finally show ?case by (simp add: prependFirst_def)
qed

lemma wellFormed_tail:
  "plain lab \<Longrightarrow> plain f \<Longrightarrow> neutral (lab @ colon # f)"
  by (simp add: plain_neutral)

lemma wellFormed_parts:
  "wellFormed fmt t \<Longrightarrow> plain (fmt (branch_length t)) \<and> fmt (branch_length t) \<noteq> []
     \<and> \<not> isWhiteSpace (last (fmt (branch_length t)))"
  by (cases t) (auto dest: lengthText_ok_reads)

lemma findEndParenFrom_subtree:
  "wellFormed fmt t \<Longrightarrow> 0 < d \<Longrightarrow>
     findEndParenFrom (subtree fmt t @ rest) i d
     = findEndParenFrom rest (i + length (subtree fmt t)) d"
proof (induction t arbitrary: d rest i)
  case (Leaf n l)
  then have "neutral (n @ colon # fmt l)"
    using lengthText_ok_reads[of fmt l] by (simp add: nameText_def plain_neutral)
  from findEndParenFrom_neutral[OF this, of rest i d] show ?case by simp
next
  case (Internal ts lab l)
  let ?J = "joinWith comma (map (subtree fmt) ts)"
  let ?tail = "labelText lab @ colon # fmt l"
  from Internal.prems have tail: "neutral ?tail"
    using lengthText_ok_reads[of fmt l] by (simp add: plain_neutral)
  have kids: "\<And>x rest i. x \<in> set (map (subtree fmt) ts) \<Longrightarrow>
      findEndParenFrom (x @ rest) i (d + 1) = findEndParenFrom rest (i + length x) (d + 1)"
  proof -
    fix x rest i assume "x \<in> set (map (subtree fmt) ts)"
    then obtain c where c: "c \<in> set ts" "x = subtree fmt c" by auto
    with Internal.prems have "wellFormed fmt c" by (simp add: list_all_iff)
    with Internal.IH[OF c(1), of "d + 1" rest i] Internal.prems(2) c(2)
    show "findEndParenFrom (x @ rest) i (d + 1) = findEndParenFrom rest (i + length x) (d + 1)"
      by simp
  qed
  have "findEndParenFrom (subtree fmt (Internal ts lab l) @ rest) i d
        = findEndParenFrom (?J @ (rparen # ?tail @ rest)) (i + 1) (d + 1)"
    by simp
  also have "\<dots> = findEndParenFrom (rparen # ?tail @ rest) (i + 1 + length ?J) (d + 1)"
    by (rule findEndParenFrom_join[OF kids])
  also have "\<dots> = findEndParenFrom (?tail @ rest) (i + 1 + length ?J + 1) d"
    using Internal.prems(2) by simp
  also have "\<dots> = findEndParenFrom rest (i + 1 + length ?J + 1 + length ?tail) d"
    by (rule findEndParenFrom_neutral[OF tail])
  finally show ?case by (simp add: add.assoc)
qed

lemma topLevelPieces_subtree:
  "wellFormed fmt t \<Longrightarrow> 0 \<le> d \<Longrightarrow>
     topLevelPieces d (subtree fmt t @ rest) = prependFirst (subtree fmt t) (topLevelPieces d rest)"
proof (induction t arbitrary: d rest)
  case (Leaf n l)
  then have "neutral (n @ colon # fmt l)"
    using lengthText_ok_reads[of fmt l] by (simp add: nameText_def plain_neutral)
  from topLevelPieces_neutral[OF this, of d rest] show ?case by simp
next
  case (Internal ts lab l)
  let ?J = "joinWith comma (map (subtree fmt) ts)"
  let ?tail = "labelText lab @ colon # fmt l"
  from Internal.prems have tail: "neutral ?tail"
    using lengthText_ok_reads[of fmt l] by (simp add: plain_neutral)
  have kids: "\<And>x rest. x \<in> set (map (subtree fmt) ts) \<Longrightarrow>
      topLevelPieces (d + 1) (x @ rest) = prependFirst x (topLevelPieces (d + 1) rest)"
  proof -
    fix x rest assume "x \<in> set (map (subtree fmt) ts)"
    then obtain c where c: "c \<in> set ts" "x = subtree fmt c" by auto
    with Internal.prems have "wellFormed fmt c" by (simp add: list_all_iff)
    with Internal.IH[OF c(1), of "d + 1" rest] Internal.prems(2) c(2)
    show "topLevelPieces (d + 1) (x @ rest) = prependFirst x (topLevelPieces (d + 1) rest)"
      by simp
  qed
  have d1: "d + 1 \<noteq> 0" using Internal.prems(2) by simp
  have "topLevelPieces d (subtree fmt (Internal ts lab l) @ rest)
        = prependFirst [lparen] (topLevelPieces (d + 1) (?J @ (rparen # ?tail @ rest)))"
    using topLevelPieces_step[of lparen d] by (simp add: parenStep_def)
  also have "topLevelPieces (d + 1) (?J @ (rparen # ?tail @ rest))
        = prependFirst ?J (topLevelPieces (d + 1) (rparen # ?tail @ rest))"
    by (rule topLevelPieces_join[OF kids d1])
  also have "topLevelPieces (d + 1) (rparen # ?tail @ rest)
        = prependFirst [rparen] (topLevelPieces d (?tail @ rest))"
    using topLevelPieces_step[of rparen "d + 1"] by (simp add: parenStep_def)
  also have "topLevelPieces d (?tail @ rest) = prependFirst ?tail (topLevelPieces d rest)"
    by (rule topLevelPieces_neutral[OF tail])
  finally show ?case by (simp add: prependFirst_append)
qed


lemma trimmed_ends:
  assumes "trim s = s" and "s \<noteq> []"
  shows "\<not> isWhiteSpace (hd s)" and "\<not> isWhiteSpace (last s)"
  using trim_ends[of s] assms by auto

lemma plain_Cons [simp]:
  "plain (c # s) \<longleftrightarrow> c \<notin> {lparen, rparen, comma, colon, semicolon} \<and> plain s"
  by (simp add: plain_def)

lemma plain_no_colon: "plain s \<Longrightarrow> colon \<notin> set s"
  by (auto simp: plain_def list_all_iff)

lemma takeWhile_plain:
  "plain s \<Longrightarrow> takeWhile (\<lambda>c. c \<noteq> colon) (s @ colon # f) = s"
  by (induction s) auto

lemma dropWhile_plain:
  "plain s \<Longrightarrow> dropWhile (\<lambda>c. c \<noteq> colon) (s @ colon # f) = colon # f"
  by (induction s) auto

lemma suffixText_cases:
  assumes "suffixText sfx"
  obtains "sfx = []" | f where "sfx = colon # f" "f \<noteq> []" "\<not> isWhiteSpace (last f)" "plain f"
  using assms unfolding suffixText_def
  by (cases sfx) auto

lemma parse_leaf_text:
  assumes "nameText n" and "suffixText sfx"
  shows "parseNode (n @ sfx) =
           Node [] (Some n) (if sfx = [] then zero else or0 (parseFloat (tl sfx)))"
proof -
  from assms(1) have n: "n \<noteq> []" "trim n = n" "plain n" by (simp_all add: nameText_def)
  from n have hn: "\<not> isWhiteSpace (hd n)" and ln: "\<not> isWhiteSpace (last n)"
    using trimmed_ends[of n] by simp_all
  from n obtain c r where cr: "n = c # r" by (cases n) auto
  with n(3) have c: "c \<noteq> lparen" "c \<noteq> colon" by simp_all
  from assms(2) show ?thesis
  proof (cases rule: suffixText_cases)
    case 1
    have t: "trim n = n" by (rule n(2))
    have "\<not> startsWith n lparen" using cr c by (simp add: startsWith_def)
    then have "\<not> startsWith (trim n) lparen" by (simp add: t)
    then have "parseNode n = leafNode n" using parseNode_leaf[of n] by (simp add: t)
    also have "\<dots> = Node [] (Some n) zero"
      using plain_no_colon[OF n(3)] by (simp add: leafNode_eq t)
    finally show ?thesis using 1 by simp
  next
    case (2 f)
    let ?t = "n @ colon # f"
    have "?t \<noteq> []" "hd ?t = hd n" "last ?t = last f" using n(1) 2(2) by simp_all
    with hn 2(3) have t: "trim ?t = ?t" by (intro trim_id) simp
    have "\<not> startsWith ?t lparen" using cr c by (simp add: startsWith_def)
    then have ns: "\<not> startsWith (trim ?t) lparen" by (simp add: t)
    have "parseNode ?t = leafNode ?t" using parseNode_leaf[OF ns] by (simp add: t)
    also have "\<dots> = Node [] (Some n) (or0 (parseFloat f))"
    proof -
      have "hd ?t \<noteq> colon" using cr c by simp
      moreover have "colon \<in> set ?t" by simp
      ultimately show ?thesis
        by (simp only: leafNode_eq takeWhile_plain[OF n(3)] dropWhile_plain[OF n(3)] n(2)
            simp_thms if_True list.sel)
    qed
    finally show ?thesis using 2 by simp
  qed
qed

lemma subtree_trimmed:
  assumes "wellFormed fmt t"
  shows "trim (subtree fmt t) = subtree fmt t \<and> subtree fmt t \<noteq> []"
proof -
  from wellFormed_parts[OF assms]
  have f: "fmt (branch_length t) \<noteq> []" "\<not> isWhiteSpace (last (fmt (branch_length t)))"
    by simp_all
  have h: "\<not> isWhiteSpace (hd (subtree fmt t))"
  proof (cases t)
    case (Leaf n l)
    with assms have "n \<noteq> []" "trim n = n" by (simp_all add: nameText_def)
    then show ?thesis using trimmed_ends(1)[of n] Leaf by simp
  next
    case (Internal ts lab l)
    then show ?thesis by (simp add: isWhiteSpace_def)
  qed
  have l: "last (subtree fmt t) = last (fmt (branch_length t))"
    using f(1) by (cases t) simp_all
  have ne: "subtree fmt t \<noteq> []" by (cases t) simp_all
  from h l f(2) ne show ?thesis by (simp add: trim_id)
qed

lemma parse_internal_text:
  assumes "ts \<noteq> []" and "list_all (wellFormed fmt) ts"
    and "trim lab = lab" and "plain lab" and "suffixText sfx"
  shows "parseNode (lparen # joinWith comma (map (subtree fmt) ts) @ rparen # lab @ sfx) =
           Node (map (\<lambda>c. parseNode (subtree fmt c)) ts)
             (Some (if lab = [] then js ''Internal'' else lab))
             (if sfx = [] then zero else or0 (parseFloat (tl sfx)))"
proof -
  let ?J = "joinWith comma (map (subtree fmt) ts)"
  let ?t = "lparen # ?J @ rparen # lab @ sfx"
  have last_t: "\<not> isWhiteSpace (last ?t)"
  proof (cases "sfx = []")
    case False
    with assms(5) show ?thesis by (simp add: suffixText_def)
  next
    case True
    show ?thesis
    proof (cases "lab = []")
      case True
      with \<open>sfx = []\<close> show ?thesis by (simp add: isWhiteSpace_def)
    next
      case False
      with \<open>sfx = []\<close> trimmed_ends(2)[OF assms(3)] show ?thesis by simp
    qed
  qed
  have "\<not> isWhiteSpace (hd ?t)" by (simp add: isWhiteSpace_def)
  with last_t have t: "trim ?t = ?t" by (intro trim_id) simp
  have st: "startsWith (trim ?t) lparen" by (simp add: t startsWith_def)
  have kids1: "\<And>x rest i. x \<in> set (map (subtree fmt) ts) \<Longrightarrow>
      findEndParenFrom (x @ rest) i 1 = findEndParenFrom rest (i + length x) 1"
    using assms(2) by (auto simp: list_all_iff findEndParenFrom_subtree)
  have "findEndParen ?t = findEndParenFrom (?J @ (rparen # lab @ sfx)) 1 1"
    by (simp add: findEndParen_def)
  also have "\<dots> = findEndParenFrom (rparen # lab @ sfx) (1 + length ?J) 1"
    by (rule findEndParenFrom_join[OF kids1])
  also have "\<dots> = Some (1 + length ?J)" by simp
  finally have e: "findEndParen (trim ?t) = Some (1 + length ?J)" by (simp add: t)
  have "substring ?t 1 (1 + length ?J) = take (1 + length ?J - 1) (tl ?t)"
    by (rule substring_inner) simp_all
  then have inner: "substring ?t 1 (1 + length ?J) = ?J" by simp
  have kids0: "\<And>x rest. x \<in> set (map (subtree fmt) ts) \<Longrightarrow>
      topLevelPieces 0 (x @ rest) = prependFirst x (topLevelPieces 0 rest)"
    using assms(2) by (auto simp: list_all_iff topLevelPieces_subtree)
  have pieces: "topLevelPieces 0 ?J = map (subtree fmt) ts"
    using assms(1) by (intro topLevelPieces_join_top[OF kids0]) simp_all
  have "filter (\<lambda>p. p \<noteq> []) (map trim (map (subtree fmt) ts)) = map (subtree fmt) ts"
    using assms(2) by (induction ts) (simp_all add: subtree_trimmed)
  then have cs: "childStrings ?t (1 + length ?J) = map (subtree fmt) ts"
    unfolding childStrings_def inner splitChildren_pieces pieces .
  have after: "substringFrom ?t (1 + length ?J + 1) = lab @ sfx"
    by (simp add: substringFrom_def)
  have "parseNode ?t = internalNode (map parseNode (map (subtree fmt) ts)) (lab @ sfx)"
    using parseNode_internal[OF st e] unfolding t cs after .
  also have "\<dots> = Node (map (\<lambda>c. parseNode (subtree fmt c)) ts)
             (Some (if lab = [] then js ''Internal'' else lab))
             (if sfx = [] then zero else or0 (parseFloat (tl sfx)))"
    using assms(5)
  proof (cases rule: suffixText_cases)
    case 1
    then show ?thesis
      using plain_no_colon[OF assms(4)] assms(3)
      by (simp add: internalNode_eq orInternal_def comp_def)
  next
    case (2 f)
    then show ?thesis
      using assms(3)
      by (simp add: internalNode_eq orInternal_def comp_def
          takeWhile_plain[OF assms(4)] dropWhile_plain[OF assms(4)])
  qed
  finally show ?thesis .
qed


lemma list_all2_apply_map:
  "list_all2 (\<lambda>m c. m c) (map f xs) (map g xs) \<longleftrightarrow> (\<forall>x\<in>set xs. f x (g x))"
  by (simp add: list_all2_map1 list_all2_map2 list_all2_same)

lemma withinTolerance_zero: "withinTolerance 0 zero"
  by (simp add: withinTolerance_def zero_def)

lemma matches_subtree: "wellFormed fmt t \<Longrightarrow> matches t (parseNode (subtree fmt t))"
proof (induction t)
  case (Leaf n l)
  then have n: "nameText n" and l: "lengthText_ok fmt l" by simp_all
  from lengthText_ok_reads[OF l] have "suffixText (colon # fmt l)"
    by (simp add: suffixText_def)
  from parse_leaf_text[OF n this] lengthText_ok_reads[OF l] show ?case
    by simp
next
  case (Internal ts lab l)
  then have ts: "ts \<noteq> []" "list_all (wellFormed fmt) ts"
    and lab: "trim (labelText lab) = labelText lab" "plain (labelText lab)"
    and l: "lengthText_ok fmt l" by simp_all
  from lengthText_ok_reads[OF l] have "suffixText (colon # fmt l)"
    by (simp add: suffixText_def)
  from parse_internal_text[OF ts lab this]
  have p: "parseNode (subtree fmt (Internal ts lab l)) =
      Node (map (\<lambda>c. parseNode (subtree fmt c)) ts)
        (Some (if labelText lab = [] then js ''Internal'' else labelText lab))
        (or0 (parseFloat (fmt l)))"
    by simp
  have "\<forall>c\<in>set ts. matches c (parseNode (subtree fmt c))"
    using Internal.IH ts(2) by (simp add: list_all_iff)
  with lengthText_ok_reads[OF l] show ?case
    unfolding p by (simp add: list_all2_apply_map)
qed

lemma parseNode_trim: "parseNode (trim x) = parseNode x"
  by (simp add: parseNode.simps[of x] parseNode.simps[of "trim x"])

lemma parseNewick_semicolon: "parseNewick (x @ [semicolon]) = parseNode x"
  by (simp add: parseNewick_def replaceSemicolon_def parseNode_trim)

lemma parseNewick_serialize:
  "parseNewick (serialize fmt t) =
     parseNode (body fmt t
       @ (if branch_length t = 0 then [] else colon # fmt (branch_length t)))"
proof -
  have "serialize fmt t =
      (body fmt t @ (if branch_length t = 0 then [] else colon # fmt (branch_length t)))
      @ [semicolon]"
    by (simp add: serialize_def)
  then show ?thesis by (simp only: parseNewick_semicolon)
qed

lemma matches_leafNames:
  "wellFormed fmt t \<Longrightarrow> matches t k \<Longrightarrow> parsedLeafNames k = map Some (leafNames t)"
proof (induction t arbitrary: k)
  case (Leaf n l)
  then show ?case by (cases k) simp
next
  case (Internal ts lab l)
  obtain cs nm len where k: "k = Node cs nm len" by (cases k)
  from Internal.prems(2) have m: "list_all2 (\<lambda>m c. m c) (map matches ts) cs"
    by (simp add: k)
  then have len: "length cs = length ts" by (auto dest: list_all2_lengthD)
  from Internal.prems(1) have ts: "ts \<noteq> []" and wf: "\<forall>c\<in>set ts. wellFormed fmt c"
    by (simp_all add: list_all_iff)
  have "map parsedLeafNames cs = map (\<lambda>c. map Some (leafNames c)) ts"
  proof (rule nth_equalityI)
    show "length (map parsedLeafNames cs) = length (map (\<lambda>c. map Some (leafNames c)) ts)"
      using len by simp
  next
    fix i assume "i < length (map parsedLeafNames cs)"
    then have i: "i < length ts" using len by simp
    with m have "matches (ts ! i) (cs ! i)"
      by (auto simp: list_all2_conv_all_nth)
    with Internal.IH[of "ts ! i" "cs ! i"] wf i
    have "parsedLeafNames (cs ! i) = map Some (leafNames (ts ! i))" by simp
    with i len show "map parsedLeafNames cs ! i = map (\<lambda>c. map Some (leafNames c)) ts ! i"
      by simp
  qed
  moreover from ts len have "cs \<noteq> []" by auto
  ultimately show ?case
    by (simp add: k map_concat comp_def)
qed

lemma matches_leafNames_root:
  "wellFormedRoot fmt t \<Longrightarrow> matches t k \<Longrightarrow> parsedLeafNames k = map Some (leafNames t)"
proof (cases t)
  case (Leaf n l)
  assume "matches t k"
  with Leaf show ?thesis by (cases k) simp
next
  case (Internal ts lab l)
  assume r: "wellFormedRoot fmt t" and mt: "matches t k"
  obtain cs nm len where k: "k = Node cs nm len" by (cases k)
  from mt have m: "list_all2 (\<lambda>m c. m c) (map matches ts) cs"
    by (simp add: k Internal)
  then have len: "length cs = length ts" by (auto dest: list_all2_lengthD)
  from r have ts: "ts \<noteq> []" and wf: "\<forall>c\<in>set ts. wellFormed fmt c"
    by (simp_all add: wellFormedRoot_def Internal list_all_iff)
  have "map parsedLeafNames cs = map (\<lambda>c. map Some (leafNames c)) ts"
  proof (rule nth_equalityI)
    show "length (map parsedLeafNames cs) = length (map (\<lambda>c. map Some (leafNames c)) ts)"
      using len by simp
  next
    fix i assume "i < length (map parsedLeafNames cs)"
    then have i: "i < length ts" using len by simp
    with m have "matches (ts ! i) (cs ! i)"
      by (auto simp: list_all2_conv_all_nth)
    with matches_leafNames[of fmt "ts ! i" "cs ! i"] wf i
    have "parsedLeafNames (cs ! i) = map Some (leafNames (ts ! i))" by simp
    with i len show "map parsedLeafNames cs ! i = map (\<lambda>c. map Some (leafNames c)) ts ! i"
      by simp
  qed
  moreover from ts len have "cs \<noteq> []" by auto
  ultimately show ?thesis
    by (simp add: k Internal map_concat comp_def)
qed

text \<open>
  Claim C1, as the code has it. Take the serializer of section 4.4 with any format
  \<open>fmt\<close> of branch lengths. If every leaf name is not empty, holds none of
  \<open>( ) , : ;\<close> and has no white space at either end, every label holds none of these
  characters and has no white space at either end, every internal node has a child,
  and every branch length that is written is written as a decimal number below
  \<open>2 ^ 23\<close> whose value is within \<open>5e-10\<close> of it, then parsing the serialized tree
  gives the same tree: the same leaves with the same names in the same nesting and
  order, the labels of the internal nodes (\<open>Internal\<close> for one that has none), and
  branch lengths within \<open>1e-9\<close>.
\<close>

theorem roundtrip:
  assumes "wellFormedRoot fmt t"
  shows "matches t (parseNewick (serialize fmt t))
         \<and> parsedLeafNames (parseNewick (serialize fmt t)) = map Some (leafNames t)"
proof -
  have "matches t (parseNewick (serialize fmt t))"
  proof (cases t)
    case (Leaf n l)
    with assms have n: "nameText n" and l: "l = 0 \<or> lengthText_ok fmt l"
      by (simp_all add: wellFormedRoot_def)
    let ?sfx = "if l = 0 then [] else colon # fmt l"
    from l have "suffixText ?sfx"
      by (auto simp: suffixText_def dest: lengthText_ok_reads)
    from parse_leaf_text[OF n this]
    have p: "parseNode (body fmt (Leaf n l) @ ?sfx) =
        Node [] (Some n) (if l = 0 then zero else or0 (parseFloat (fmt l)))"
      by (simp add: body_def)
    have "parseNewick (serialize fmt t) = parseNode (body fmt (Leaf n l) @ ?sfx)"
      unfolding parseNewick_serialize Leaf by simp
    with p l show ?thesis
      unfolding Leaf
      by (auto simp: withinTolerance_zero dest: lengthText_ok_reads)
  next
    case (Internal ts lab l)
    with assms have ts: "ts \<noteq> []" "list_all (wellFormed fmt) ts"
      and lab: "trim (labelText lab) = labelText lab" "plain (labelText lab)"
      and l: "l = 0 \<or> lengthText_ok fmt l"
      by (simp_all add: wellFormedRoot_def)
    let ?sfx = "if l = 0 then [] else colon # fmt l"
    from l have "suffixText ?sfx"
      by (auto simp: suffixText_def dest: lengthText_ok_reads)
    from parse_internal_text[OF ts lab this]
    have p: "parseNode (body fmt (Internal ts lab l) @ ?sfx) =
        Node (map (\<lambda>c. parseNode (subtree fmt c)) ts)
          (Some (if labelText lab = [] then js ''Internal'' else labelText lab))
          (if l = 0 then zero else or0 (parseFloat (fmt l)))"
      by (simp add: body_def)
    have kids: "\<forall>c\<in>set ts. matches c (parseNode (subtree fmt c))"
      using ts(2) by (simp add: list_all_iff matches_subtree)
    have "parseNewick (serialize fmt t) = parseNode (body fmt (Internal ts lab l) @ ?sfx)"
      unfolding parseNewick_serialize Internal by simp
    with p kids l show ?thesis
      unfolding Internal
      by (auto simp: list_all2_apply_map withinTolerance_zero dest: lengthText_ok_reads)
  qed
  with assms matches_leafNames_root[of fmt t] show ?thesis by simp
qed

theorem roundtrip_witness:
  "wellFormedRoot
     (\<lambda>x. if x = 1 / 10 then js ''0.1'' else if x = 1 / 5 then js ''0.2''
          else if x = 1 / 4 then js ''0.25'' else js ''1.5'')
     (Internal [Internal [Leaf (js ''A'') (1 / 10), Leaf (js ''B'') (1 / 5)] (Some (js ''X'')) (1 / 4),
                Leaf (js ''C'') (3 / 2)] None 0)
   \<and> serialize
       (\<lambda>x. if x = 1 / 10 then js ''0.1'' else if x = 1 / 5 then js ''0.2''
            else if x = 1 / 4 then js ''0.25'' else js ''1.5'')
       (Internal [Internal [Leaf (js ''A'') (1 / 10), Leaf (js ''B'') (1 / 5)] (Some (js ''X'')) (1 / 4),
                  Leaf (js ''C'') (3 / 2)] None 0)
       = js ''((A:0.1,B:0.2)X:0.25,C:1.5);''
   \<and> matches
       (Internal [Internal [Leaf (js ''A'') (1 / 10), Leaf (js ''B'') (1 / 5)] (Some (js ''X'')) (1 / 4),
                  Leaf (js ''C'') (3 / 2)] None 0)
       (parseNewick (js ''((A:0.1,B:0.2)X:0.25,C:1.5);''))
   \<and> parsedLeafNames (parseNewick (js ''((A:0.1,B:0.2)X:0.25,C:1.5);''))
       = [Some (js ''A''), Some (js ''B''), Some (js ''C'')]"
proof -
  let ?fmt = "\<lambda>x::real. if x = 1 / 10 then js ''0.1'' else if x = 1 / 5 then js ''0.2''
          else if x = 1 / 4 then js ''0.25'' else js ''1.5''"
  let ?t = "Internal [Internal [Leaf (js ''A'') (1 / 10), Leaf (js ''B'') (1 / 5)] (Some (js ''X'')) (1 / 4),
                Leaf (js ''C'') (3 / 2)] None 0"
  have a: "nameText (js ''A'')" "nameText (js ''B'')" "nameText (js ''C'')"
    by (simp_all add: nameText_def plain_def js_def trim_def isWhiteSpace_def)
  have x: "trim (js ''X'') = js ''X''" "plain (js ''X'')"
    by (simp_all add: plain_def js_def trim_def isWhiteSpace_def)
  have d: "decimalText (js ''0.1'')" "decimalText (js ''0.2'')"
    "decimalText (js ''0.25'')" "decimalText (js ''1.5'')"
    by code_simp+
  have i: "takeWhile isDigit (js ''0.1'') @ fractionDigits (js ''0.1'') = js ''01''"
    "takeWhile isDigit (js ''0.2'') @ fractionDigits (js ''0.2'') = js ''02''"
    "takeWhile isDigit (js ''0.25'') @ fractionDigits (js ''0.25'') = js ''025''"
    "takeWhile isDigit (js ''1.5'') @ fractionDigits (js ''1.5'') = js ''15''"
    by code_simp+
  have f: "length (fractionDigits (js ''0.1'')) = 1" "length (fractionDigits (js ''0.2'')) = 1"
    "length (fractionDigits (js ''0.25'')) = 2" "length (fractionDigits (js ''1.5'')) = 1"
    by code_simp+
  have g: "digitsValue (js ''01'') = 1" "digitsValue (js ''02'') = 2"
    "digitsValue (js ''025'') = 25" "digitsValue (js ''15'') = 15"
    by code_simp+
  have v: "decimalValue (js ''0.1'') = 1 / 10" "decimalValue (js ''0.2'') = 1 / 5"
    "decimalValue (js ''0.25'') = 1 / 4" "decimalValue (js ''1.5'') = 3 / 2"
    by (simp_all add: decimalValue_def i f g)
  have l: "lengthText_ok ?fmt (1 / 10)" "lengthText_ok ?fmt (1 / 5)"
    "lengthText_ok ?fmt (1 / 4)" "lengthText_ok ?fmt (3 / 2)"
    by (simp_all add: lengthText_ok_def d v)
  have n: "trim [] = []" "plain []"
    by (simp_all add: trim_def plain_def)
  have h: "wellFormedRoot ?fmt ?t"
    using a x n l by (simp add: wellFormedRoot_def labelText_def)
  have s: "serialize ?fmt ?t = js ''((A:0.1,B:0.2)X:0.25,C:1.5);''"
    by (simp add: serialize_def body_def labelText_def js_def)
  from roundtrip[OF h] h s show ?thesis by simp
qed

text \<open>
  Each condition on the tree is needed. A leaf name may start with a space (it holds
  none of the five characters), and the parser trims it: the leaf named \<open>A\<close> with a
  space in front is written as that name and a semicolon, and parsed as the leaf named
  \<open>A\<close>, whatever the format of the branch lengths. A leaf with the empty name and the
  length \<open>0.5\<close> is written \<open>:0.5\<close> and parsed as the leaf named \<open>:0.5\<close> of length
  \<open>0\<close>. The label \<open>X:Y\<close> is parsed as the label \<open>X\<close>, and the label \<open>X\<close> with a space
  in front as \<open>X\<close>. The length \<open>4e-9\<close> rounded to eight decimal places is written
  \<open>0.00000000\<close> and parsed as \<open>0\<close>. The text \<open>8388607.9999999995\<close>, below
  \<open>2 ^ 23\<close> and \<open>5.7e-10\<close> away from the length \<open>8388608.00000000007\<close>, is parsed as
  \<open>2 ^ 23 - 2 ^ - 30\<close>, more than \<open>1e-9\<close> away from that length. The length
  \<open>8388608.0000000006\<close> rounded to nine decimal places is written
  \<open>8388608.000000001\<close>, which is not below \<open>2 ^ 23\<close>, and parsed as
  \<open>2 ^ 23 + 2 ^ - 29\<close>, more than \<open>1e-9\<close> away from that length.
\<close>

theorem roundtrip_counterexample:
  "(\<forall>fmt. plain (js '' A'')
      \<and> serialize fmt (Leaf (js '' A'') 0) = js '' A;''
      \<and> parseNewick (js '' A;'') = Node [] (Some (js ''A'')) zero
      \<and> \<not> matches (Leaf (js '' A'') 0) (parseNewick (serialize fmt (Leaf (js '' A'') 0)))
      \<and> parsedLeafNames (parseNewick (serialize fmt (Leaf (js '' A'') 0)))
          \<noteq> map Some (leafNames (Leaf (js '' A'') 0)))
   \<and> (serialize (\<lambda>x. js ''0.5'') (Internal [Leaf [] (1 / 2), Leaf (js ''B'') (1 / 2)] None 0)
        = js ''(:0.5,B:0.5);''
      \<and> parseNewick (js ''(:0.5,B:0.5);'')
        = Node [Node [] (Some (js '':0.5'')) zero,
                Node [] (Some (js ''B'')) (Fin 4503599627370496 (- 53))]
            (Some (js ''Internal'')) zero
      \<and> \<not> matches (Internal [Leaf [] (1 / 2), Leaf (js ''B'') (1 / 2)] None 0)
            (parseNewick (js ''(:0.5,B:0.5);'')))
   \<and> (serialize (\<lambda>x. js ''0.5'') (Internal [Leaf (js ''A'') (1 / 2)] (Some (js ''X:Y'')) 0)
        = js ''(A:0.5)X:Y;''
      \<and> parseNewick (js ''(A:0.5)X:Y;'')
        = Node [Node [] (Some (js ''A'')) (Fin 4503599627370496 (- 53))] (Some (js ''X'')) zero
      \<and> \<not> matches (Internal [Leaf (js ''A'') (1 / 2)] (Some (js ''X:Y'')) 0)
            (parseNewick (js ''(A:0.5)X:Y;'')))
   \<and> (serialize (\<lambda>x. js ''0.5'') (Internal [Leaf (js ''A'') (1 / 2)] (Some (js '' X'')) 0)
        = js ''(A:0.5) X;''
      \<and> parseNewick (js ''(A:0.5) X;'')
        = Node [Node [] (Some (js ''A'')) (Fin 4503599627370496 (- 53))] (Some (js ''X'')) zero
      \<and> \<not> matches (Internal [Leaf (js ''A'') (1 / 2)] (Some (js '' X'')) 0)
            (parseNewick (js ''(A:0.5) X;'')))
   \<and> (decimalText (js ''0.00000000'') \<and> decimalValue (js ''0.00000000'') = 0
      \<and> serialize (\<lambda>x. js ''0.00000000'') (Leaf (js ''A'') (4 / 10 ^ 9)) = js ''A:0.00000000;''
      \<and> parseNewick (js ''A:0.00000000;'') = Node [] (Some (js ''A'')) zero
      \<and> \<not> matches (Leaf (js ''A'') (4 / 10 ^ 9)) (parseNewick (js ''A:0.00000000;'')))
   \<and> (decimalText (js ''8388607.9999999995'')
      \<and> decimalValue (js ''8388607.9999999995'') = 83886079999999995 / 10 ^ 10
      \<and> serialize (\<lambda>x. js ''8388607.9999999995'')
          (Leaf (js ''A'') (838860800000000007 / 10 ^ 11))
        = js ''A:8388607.9999999995;''
      \<and> parseNewick (js ''A:8388607.9999999995;'')
        = Node [] (Some (js ''A'')) (Fin 9007199254740991 (- 30))
      \<and> \<not> matches (Leaf (js ''A'') (838860800000000007 / 10 ^ 11))
            (parseNewick (js ''A:8388607.9999999995;'')))
   \<and> (decimalText (js ''8388608.000000001'')
      \<and> decimalValue (js ''8388608.000000001'') = 8388608000000001 / 10 ^ 9
      \<and> serialize (\<lambda>x. js ''8388608.000000001'')
          (Leaf (js ''A'') (83886080000000006 / 10 ^ 10))
        = js ''A:8388608.000000001;''
      \<and> parseNewick (js ''A:8388608.000000001;'')
        = Node [] (Some (js ''A'')) (Fin 4503599627370497 (- 29))
      \<and> \<not> matches (Leaf (js ''A'') (83886080000000006 / 10 ^ 10))
            (parseNewick (js ''A:8388608.000000001;'')))"
proof -
  have 1: "plain (js '' A'')" by (simp add: plain_def js_def)
  have 2: "serialize fmt (Leaf (js '' A'') 0) = js '' A;''" for fmt
    by (simp add: serialize_def body_def js_def)
  have 3: "parseNewick (js '' A;'') = Node [] (Some (js ''A'')) zero" by code_simp
  have 4: "js ''A'' \<noteq> js '' A''" by (simp add: js_def)
  have trimmed: "\<forall>fmt. plain (js '' A'')
      \<and> serialize fmt (Leaf (js '' A'') 0) = js '' A;''
      \<and> parseNewick (js '' A;'') = Node [] (Some (js ''A'')) zero
      \<and> \<not> matches (Leaf (js '' A'') 0) (parseNewick (serialize fmt (Leaf (js '' A'') 0)))
      \<and> parsedLeafNames (parseNewick (serialize fmt (Leaf (js '' A'') 0)))
          \<noteq> map Some (leafNames (Leaf (js '' A'') 0))"
    using 1 2 3 4 by simp
  have e1: "serialize (\<lambda>x. js ''0.5'') (Internal [Leaf [] (1 / 2), Leaf (js ''B'') (1 / 2)] None 0)
        = js ''(:0.5,B:0.5);''"
    by (simp add: serialize_def body_def labelText_def js_def)
  have e2: "parseNewick (js ''(:0.5,B:0.5);'')
        = Node [Node [] (Some (js '':0.5'')) zero,
                Node [] (Some (js ''B'')) (Fin 4503599627370496 (- 53))]
            (Some (js ''Internal'')) zero"
    by code_simp
  have e3: "js '':0.5'' \<noteq> []" by (simp add: js_def)
  have empty: "\<not> matches (Internal [Leaf [] (1 / 2), Leaf (js ''B'') (1 / 2)] None 0)
            (parseNewick (js ''(:0.5,B:0.5);''))"
    using e3 by (simp add: e2)
  have c1: "serialize (\<lambda>x. js ''0.5'') (Internal [Leaf (js ''A'') (1 / 2)] (Some (js ''X:Y'')) 0)
        = js ''(A:0.5)X:Y;''"
    by (simp add: serialize_def body_def labelText_def js_def)
  have c2: "parseNewick (js ''(A:0.5)X:Y;'')
        = Node [Node [] (Some (js ''A'')) (Fin 4503599627370496 (- 53))] (Some (js ''X'')) zero"
    by code_simp
  have c3: "js ''X'' \<noteq> js ''X:Y''" "js ''X:Y'' \<noteq> []" by (simp_all add: js_def)
  have label: "\<not> matches (Internal [Leaf (js ''A'') (1 / 2)] (Some (js ''X:Y'')) 0)
            (parseNewick (js ''(A:0.5)X:Y;''))"
    using c3 by (simp add: c2 labelText_def)
  have s1: "serialize (\<lambda>x. js ''0.5'') (Internal [Leaf (js ''A'') (1 / 2)] (Some (js '' X'')) 0)
        = js ''(A:0.5) X;''"
    by (simp add: serialize_def body_def labelText_def js_def)
  have s2: "parseNewick (js ''(A:0.5) X;'')
        = Node [Node [] (Some (js ''A'')) (Fin 4503599627370496 (- 53))] (Some (js ''X'')) zero"
    by code_simp
  have s3: "js ''X'' \<noteq> js '' X''" "js '' X'' \<noteq> []" by (simp_all add: js_def)
  have space: "\<not> matches (Internal [Leaf (js ''A'') (1 / 2)] (Some (js '' X'')) 0)
            (parseNewick (js ''(A:0.5) X;''))"
    using s3 by (simp add: s2 labelText_def)
  have p1: "decimalText (js ''0.00000000'')" by code_simp
  have p2: "takeWhile isDigit (js ''0.00000000'') @ fractionDigits (js ''0.00000000'')
        = js ''000000000''"
    by code_simp
  have p3: "digitsValue (js ''000000000'') = 0" by code_simp
  have p4: "decimalValue (js ''0.00000000'') = 0" by (simp add: decimalValue_def p2 p3)
  have p5: "serialize (\<lambda>x. js ''0.00000000'') (Leaf (js ''A'') (4 / 10 ^ 9))
        = js ''A:0.00000000;''"
    by (simp add: serialize_def body_def js_def)
  have p6: "parseNewick (js ''A:0.00000000;'') = Node [] (Some (js ''A'')) zero" by code_simp
  have places: "\<not> matches (Leaf (js ''A'') (4 / 10 ^ 9)) (parseNewick (js ''A:0.00000000;''))"
    by (simp add: p6 withinTolerance_def zero_def)
  have q1: "decimalText (js ''8388607.9999999995'')" by code_simp
  have q2: "takeWhile isDigit (js ''8388607.9999999995'')
        @ fractionDigits (js ''8388607.9999999995'') = js ''83886079999999995''"
    by code_simp
  have q3: "digitsValue (js ''83886079999999995'') = 83886079999999995" by code_simp
  have q4: "length (fractionDigits (js ''8388607.9999999995'')) = 10" by code_simp
  have q5: "decimalValue (js ''8388607.9999999995'') = 83886079999999995 / 10 ^ 10"
    by (simp add: decimalValue_def q2 q3 q4)
  have q6: "serialize (\<lambda>x. js ''8388607.9999999995'')
          (Leaf (js ''A'') (838860800000000007 / 10 ^ 11))
        = js ''A:8388607.9999999995;''"
    by (simp add: serialize_def body_def js_def)
  have q7: "parseNewick (js ''A:8388607.9999999995;'')
        = Node [] (Some (js ''A'')) (Fin 9007199254740991 (- 30))"
    by code_simp
  have precision: "\<not> matches (Leaf (js ''A'') (838860800000000007 / 10 ^ 11))
            (parseNewick (js ''A:8388607.9999999995;''))"
    by (simp add: q7 withinTolerance_def)
  have m1: "decimalText (js ''8388608.000000001'')" by code_simp
  have m2: "takeWhile isDigit (js ''8388608.000000001'')
        @ fractionDigits (js ''8388608.000000001'') = js ''8388608000000001''"
    by code_simp
  have m3: "digitsValue (js ''8388608000000001'') = 8388608000000001" by code_simp
  have m4: "length (fractionDigits (js ''8388608.000000001'')) = 9" by code_simp
  have m5: "decimalValue (js ''8388608.000000001'') = 8388608000000001 / 10 ^ 9"
    by (simp add: decimalValue_def m2 m3 m4)
  have m6: "serialize (\<lambda>x. js ''8388608.000000001'')
          (Leaf (js ''A'') (83886080000000006 / 10 ^ 10))
        = js ''A:8388608.000000001;''"
    by (simp add: serialize_def body_def js_def)
  have m7: "parseNewick (js ''A:8388608.000000001;'')
        = Node [] (Some (js ''A'')) (Fin 4503599627370497 (- 29))"
    by code_simp
  have magnitude: "\<not> matches (Leaf (js ''A'') (83886080000000006 / 10 ^ 10))
            (parseNewick (js ''A:8388608.000000001;''))"
    by (simp add: m7 withinTolerance_def)
  show ?thesis
    by (intro conjI)
       (fact trimmed e1 e2 empty c1 c2 label s1 s2 space p1 p4 p5 p6 places
          q1 q5 q6 q7 precision m1 m5 m6 m7 magnitude)+
qed

end
